theory Spec2Isabelle
  imports Main "HOL-Library.AList" "HOL-Library.Char_ord" "HOL-Library.List_Lexorder"
    "HOL-Library.Multiset"
begin

section \<open>Entity model (types.go)\<close>

text \<open>
  Go strings are byte sequences and \<open>string\<close> is a list of 8-bit characters. Go compares
  strings bytewise and lexicographically, which is the order that \<open>Char_ord\<close> and
  \<open>List_Lexorder\<close> put on \<open>string\<close>.
\<close>

record Module =
  Path :: string
  Version :: string

text \<open>\<open>Module.String\<close>: the canonical string of a module.\<close>

definition Module_String :: "Module \<Rightarrow> string" where
  "Module_String m = (if Version m = [] then Path m else Path m @ ''@'' @ Version m)"

record Dependency =
  From :: Module
  To :: Module

text \<open>
  A Go map is modelled by an association list with distinct keys: \<open>m[k]\<close> is
  \<open>map_of\<close>, \<open>m[k] = v\<close> is \<open>AList.update\<close>, and \<open>len(m)\<close> is the length of the
  list. The position of an entry in the list has no meaning in Go. Where the source ranges
  over a map, the order is chosen by \<open>range_order\<close> below.
\<close>

type_synonym ('k, 'v) gomap = "('k \<times> 'v) list"

record DependencyGraph =
  MainModule :: Module
  Dependencies :: "Dependency list"
  tree :: "(string, string list) gomap"

definition NewDependencyGraph :: "Module \<Rightarrow> DependencyGraph" where
  "NewDependencyGraph mainModule =
     \<lparr>MainModule = mainModule, Dependencies = [], tree = []\<rparr>"

definition AddDependency :: "DependencyGraph \<Rightarrow> Module \<Rightarrow> Module \<Rightarrow> DependencyGraph" where
  "AddDependency dg from to =
     dg\<lparr>Dependencies := Dependencies dg @ [\<lparr>From = from, To = to\<rparr>], tree := []\<rparr>"

text \<open>
  \<open>GetDirectDependencies\<close>: the loop over \<open>dg.Dependencies\<close> with the slice \<open>deps\<close>
  as accumulator.
\<close>

fun GetDirectDependencies_loop :: "string \<Rightarrow> Dependency list \<Rightarrow> Module list \<Rightarrow> Module list" where
  "GetDirectDependencies_loop moduleStr [] deps = deps"
| "GetDirectDependencies_loop moduleStr (dep # rest) deps =
     (if Module_String (From dep) = moduleStr
      then GetDirectDependencies_loop moduleStr rest (deps @ [To dep])
      else GetDirectDependencies_loop moduleStr rest deps)"

definition GetDirectDependencies :: "DependencyGraph \<Rightarrow> Module \<Rightarrow> Module list" where
  "GetDirectDependencies dg module =
     GetDirectDependencies_loop (Module_String module) (Dependencies dg) []"

text \<open>
  Ranging over a Go map visits every entry once, in an order the language leaves open and
  the runtime randomises. The order is a parameter of the model: a schedule \<open>n # ns\<close>
  visits entry \<open>n mod length xs\<close> of the entries still to come first. Every schedule
  gives a permutation of the entries and every permutation comes from a schedule.
\<close>

fun range_order :: "nat list \<Rightarrow> 'a list \<Rightarrow> 'a list" where
  "range_order ns [] = []"
| "range_order [] (x # xs) = x # xs"
| "range_order (n # ns) (x # xs) =
     (let i = n mod length (x # xs)
      in (x # xs) ! i # range_order ns (take i (x # xs) @ drop (Suc i) (x # xs)))"

text \<open>
  \<open>GetAllModules\<close>. The first loop fills \<open>moduleSet\<close>, the second ranges over it in
  the order of the schedule, and \<open>sort.Slice\<close> orders the slice by canonical string.
  \<open>sort.Slice\<close> is not stable; it is modelled by insertion sort, and
  \<open>sorted_distinct_keys_unique\<close> below shows that every sorting procedure returns the
  same slice when the keys are distinct, as they are here.
\<close>

fun moduleSet_loop :: "Dependency list \<Rightarrow> (string, Module) gomap \<Rightarrow> (string, Module) gomap" where
  "moduleSet_loop [] moduleSet = moduleSet"
| "moduleSet_loop (dep # rest) moduleSet =
     moduleSet_loop rest
       (AList.update (Module_String (To dep)) (To dep)
         (AList.update (Module_String (From dep)) (From dep) moduleSet))"

definition moduleSet_of :: "DependencyGraph \<Rightarrow> (string, Module) gomap" where
  "moduleSet_of dg =
     moduleSet_loop (Dependencies dg)
       (AList.update (Module_String (MainModule dg)) (MainModule dg) [])"

definition GetAllModules :: "nat list \<Rightarrow> DependencyGraph \<Rightarrow> Module list" where
  "GetAllModules sched dg =
     sort_key Module_String (range_order sched (map snd (moduleSet_of dg)))"

text \<open>
  \<open>buildTree\<close> and \<open>GetTree\<close>. A missing key reads as the nil slice, and appending to
  the nil slice and to the empty slice give the same slice, so the test
  \<open>dg.tree[fromStr] == nil\<close> does not show in the model.
\<close>

definition map_index :: "('k, 'v list) gomap \<Rightarrow> 'k \<Rightarrow> 'v list" where
  "map_index m k = (case map_of m k of None \<Rightarrow> [] | Some v \<Rightarrow> v)"

fun buildTree_loop :: "Dependency list \<Rightarrow> (string, string list) gomap \<Rightarrow> (string, string list) gomap" where
  "buildTree_loop [] t = t"
| "buildTree_loop (dep # rest) t =
     (let fromStr = Module_String (From dep); toStr = Module_String (To dep)
      in buildTree_loop rest (AList.update fromStr (map_index t fromStr @ [toStr]) t))"

definition buildTree :: "DependencyGraph \<Rightarrow> DependencyGraph" where
  "buildTree dg =
     (if length (tree dg) > 0 then dg
      else dg\<lparr>tree := buildTree_loop (Dependencies dg) (tree dg)\<rparr>)"

text \<open>\<open>GetTree\<close> returns the graph, whose cache it may have filled, and the map.\<close>

definition GetTree :: "DependencyGraph \<Rightarrow> DependencyGraph \<times> (string, string list) gomap" where
  "GetTree dg = (let dg' = buildTree dg in (dg', tree dg'))"


section \<open>Strings and formatting\<close>

text \<open>The double quote, the backslash and the line feed, as one-byte strings.\<close>

definition DQ :: string where
  "DQ = [CHR 0x22]"

definition BS :: string where
  "BS = [CHR 0x5C]"

definition NL :: string where
  "NL = [CHR 0x0A]"

text \<open>
  The verb \<open>%d\<close> of \<open>fmt.Sprintf\<close> on a number that is not negative. The numbers
  printed are positions in a slice and a counter that starts at 1, so they are natural
  numbers far below the range of Go's \<open>int\<close>.
\<close>

fun Itoa :: "nat \<Rightarrow> string" where
  "Itoa n =
     (if n < 10 then [char_of (48 + n)]
      else Itoa (n div 10) @ [char_of (48 + n mod 10)])"

declare Itoa.simps [simp del]

text \<open>
  \<open>strings.ReplaceAll\<close> for a pattern that is not empty: the matches are found from
  left to right and do not overlap. Every call in the source passes a constant pattern that
  is not empty; for the empty pattern, which Go treats apart, this function leaves the string
  as it is.
\<close>

fun ReplaceAll :: "string \<Rightarrow> string \<Rightarrow> string \<Rightarrow> string" where
  "ReplaceAll [] old new = []"
| "ReplaceAll (c # s) old new =
     (if old \<noteq> [] \<and> take (length old) (c # s) = old
      then new @ ReplaceAll (drop (length old) (c # s)) old new
      else c # ReplaceAll s old new)"

text \<open>\<open>strings.Join\<close>.\<close>

fun Join :: "string list \<Rightarrow> string \<Rightarrow> string" where
  "Join [] sep = []"
| "Join [x] sep = x"
| "Join (x # y # ys) sep = x @ sep @ Join (y # ys) sep"

section \<open>The sink\<close>

text \<open>
  An \<open>io.Writer\<close> is any value with a \<open>Write\<close> method. It is modelled by a state of
  type \<open>'w\<close> and a function that takes the state and the bytes and returns the error, if
  any, and the new state. \<open>fmt.Fprintf\<close> and \<open>fmt.Fprintln\<close> format their arguments
  and call \<open>Write\<close> once, and return its error.
\<close>

type_synonym ('w, 'e) Writer = "'w \<Rightarrow> string \<Rightarrow> 'e option \<times> 'w"

text \<open>\<open>bytes.Buffer\<close>, the sink of the tests: it appends and never fails.\<close>

definition Buffer_Write :: "(string, unit) Writer" where
  "Buffer_Write buf p = (None, buf @ p)"

text \<open>
  A loop that writes one string for every element of a slice and returns at the first error.
\<close>

fun write_each :: "('w, 'e) Writer \<Rightarrow> 'w \<Rightarrow> string list \<Rightarrow> 'e option \<times> 'w" where
  "write_each wr w [] = (None, w)"
| "write_each wr w (l # ls) =
     (case wr w l of
        (Some err, w') \<Rightarrow> (Some err, w')
      | (None, w') \<Rightarrow> write_each wr w' ls)"

section \<open>Plaintext tree renderer\<close>

text \<open>The connectors of the tree, in UTF-8.\<close>

definition corner_connector :: string where
  "corner_connector =
     [CHR 0xE2, CHR 0x94, CHR 0x94, CHR 0xE2, CHR 0x94, CHR 0x80, CHR 0xE2, CHR 0x94, CHR 0x80,
      CHR 0x20]"

definition branch_connector :: string where
  "branch_connector =
     [CHR 0xE2, CHR 0x94, CHR 0x9C, CHR 0xE2, CHR 0x94, CHR 0x80, CHR 0xE2, CHR 0x94, CHR 0x80,
      CHR 0x20]"

definition vertical_bar :: string where
  "vertical_bar = [CHR 0xE2, CHR 0x94, CHR 0x82, CHR 0x20, CHR 0x20, CHR 0x20]"

definition connector_of :: "string \<Rightarrow> bool \<Rightarrow> string" where
  "connector_of prefix isLast =
     (if prefix = [] then [] else if isLast then corner_connector else branch_connector)"

definition newPrefix_of :: "string \<Rightarrow> bool \<Rightarrow> string" where
  "newPrefix_of prefix isLast =
     (if prefix = [] then ''  ''
      else if isLast then prefix @ ''    '' else prefix @ vertical_bar)"

text \<open>
  \<open>dependencies := tree[nodeKey]\<close> copies the slice header, so \<open>dependencies\<close> and the
  entry of the map share one backing array, and \<open>sort.Strings(dependencies)\<close> sorts the
  entry of the graph's map in place. A missing key reads as the nil slice and the map stays
  as it is.
\<close>

definition sort_Strings_at :: "(string, string list) gomap \<Rightarrow> string \<Rightarrow> (string, string list) gomap" where
  "sort_Strings_at t k =
     (case map_of t k of None \<Rightarrow> t | Some v \<Rightarrow> AList.update k (sort v) t)"

text \<open>
  \<open>renderNode\<close> calls itself inside a loop, and the calls share the map \<open>visited\<close>
  and the graph. The model threads both, with the sink, through the calls, and takes fuel:
  the depth of calls it may use. \<open>None\<close> means that the fuel ran out; a result is the
  error, the graph, the visited set and the sink at return. \<open>renderNode_children\<close> is
  the loop over \<open>dependencies\<close>; the slice it ranges over was read before the loop.
\<close>

type_synonym ('w, 'e) render_result = "'e option \<times> DependencyGraph \<times> string set \<times> 'w"

fun renderNode ::
    "nat \<Rightarrow> ('w, 'e) Writer \<Rightarrow> DependencyGraph \<Rightarrow> string \<Rightarrow> string \<Rightarrow> bool \<Rightarrow> string set \<Rightarrow> 'w
      \<Rightarrow> ('w, 'e) render_result option"
  and renderNode_children ::
    "nat \<Rightarrow> ('w, 'e) Writer \<Rightarrow> DependencyGraph \<Rightarrow> string list \<Rightarrow> string \<Rightarrow> string set \<Rightarrow> 'w
      \<Rightarrow> ('w, 'e) render_result option"
where
  "renderNode 0 wr graph nodeKey prefix isLast visited w = None"
| "renderNode (Suc fuel) wr graph nodeKey prefix isLast visited w =
     (case wr w (prefix @ connector_of prefix isLast @ nodeKey @ NL) of
        (Some err, w') \<Rightarrow> Some (Some err, graph, visited, w')
      | (None, w') \<Rightarrow>
          if nodeKey \<in> visited then Some (None, graph, visited, w')
          else
            (let visited' = insert nodeKey visited;
                 (graph', tree') = GetTree graph;
                 dependencies = sort (map_index tree' nodeKey);
                 graph'' = graph'\<lparr>tree := sort_Strings_at tree' nodeKey\<rparr>
             in renderNode_children fuel wr graph'' dependencies
                  (newPrefix_of prefix isLast) visited' w'))"
| "renderNode_children fuel wr graph [] newPrefix visited w = Some (None, graph, visited, w)"
| "renderNode_children fuel wr graph (dep # rest) newPrefix visited w =
     (case renderNode fuel wr graph dep newPrefix (rest = []) visited w of
        None \<Rightarrow> None
      | Some (Some err, graph', visited', w') \<Rightarrow> Some (Some err, graph', visited', w')
      | Some (None, graph', visited', w') \<Rightarrow>
          renderNode_children fuel wr graph' rest newPrefix visited' w')"

definition PlaintextRenderer_Render ::
    "nat \<Rightarrow> ('w, 'e) Writer \<Rightarrow> DependencyGraph \<Rightarrow> 'w \<Rightarrow> ('w, 'e) render_result option" where
  "PlaintextRenderer_Render fuel wr graph w =
     renderNode fuel wr graph (Module_String (MainModule graph)) [] True {} w"

section \<open>Flowchart (Mermaid) renderer\<close>

text \<open>
  The first loop numbers the modules in the order of \<open>GetAllModules\<close>, from 1. The
  second loop ranges over the map \<open>nodeIDs\<close>, so the order of the declarations is that
  of the schedule \<open>sched'\<close>. A string read at a missing key is the empty string.
\<close>

fun nodeIDs_loop :: "Module list \<Rightarrow> (string, string) gomap \<Rightarrow> nat \<Rightarrow> (string, string) gomap" where
  "nodeIDs_loop [] nodeIDs idCounter = nodeIDs"
| "nodeIDs_loop (module # rest) nodeIDs idCounter =
     nodeIDs_loop rest
       (AList.update (Module_String module) (''N'' @ Itoa idCounter) nodeIDs)
       (idCounter + 1)"

definition Mermaid_node_line :: "string \<times> string \<Rightarrow> string" where
  "Mermaid_node_line e =
     (case e of (moduleStr, nodeID) \<Rightarrow>
        ''    '' @ nodeID @ ''['' @ DQ @ ReplaceAll moduleStr DQ (BS @ DQ) @ DQ @ '']'' @ NL)"

definition Mermaid_edge_line :: "(string, string) gomap \<Rightarrow> Dependency \<Rightarrow> string" where
  "Mermaid_edge_line nodeIDs dep =
     ''    '' @ map_index nodeIDs (Module_String (From dep)) @ '' --> ''
       @ map_index nodeIDs (Module_String (To dep)) @ NL"

definition MermaidRenderer_Render ::
    "nat list \<Rightarrow> nat list \<Rightarrow> ('w, 'e) Writer \<Rightarrow> DependencyGraph \<Rightarrow> 'w \<Rightarrow> 'e option \<times> 'w" where
  "MermaidRenderer_Render sched sched' wr graph w =
     (case wr w (''graph TD'' @ NL) of
        (Some err, w1) \<Rightarrow> (Some err, w1)
      | (None, w1) \<Rightarrow>
          (let nodeIDs = nodeIDs_loop (GetAllModules sched graph) [] 1
           in case write_each wr w1 (map Mermaid_node_line (range_order sched' nodeIDs)) of
                (Some err, w2) \<Rightarrow> (Some err, w2)
              | (None, w2) \<Rightarrow>
                  write_each wr w2 (map (Mermaid_edge_line nodeIDs) (Dependencies graph))))"

section \<open>Graph-description (DOT) renderer\<close>

definition sanitizeNodeID :: "string \<Rightarrow> string" where
  "sanitizeNodeID nodeID =
     ReplaceAll (ReplaceAll (ReplaceAll (ReplaceAll nodeID ''/'' ''_'') ''.'' ''_'') ''@'' ''_'')
       ''-'' ''_''"

definition Graphviz_node_line :: "DependencyGraph \<Rightarrow> Module \<Rightarrow> string" where
  "Graphviz_node_line graph module =
     (let moduleStr = Module_String module;
          escapedLabel = ReplaceAll moduleStr DQ (BS @ DQ);
          nodeID = sanitizeNodeID moduleStr
      in if moduleStr = Module_String (MainModule graph)
         then ''    '' @ DQ @ nodeID @ DQ @ '' [label='' @ DQ @ escapedLabel @ DQ
                @ '', fillcolor=lightblue, style='' @ DQ @ ''rounded,filled'' @ DQ @ ''];'' @ NL
         else ''    '' @ DQ @ nodeID @ DQ @ '' [label='' @ DQ @ escapedLabel @ DQ @ ''];'' @ NL)"

definition Graphviz_edge_line :: "Dependency \<Rightarrow> string" where
  "Graphviz_edge_line dep =
     ''    '' @ DQ @ sanitizeNodeID (Module_String (From dep)) @ DQ @ '' -> ''
       @ DQ @ sanitizeNodeID (Module_String (To dep)) @ DQ @ '';'' @ NL"

definition GraphvizRenderer_Render ::
    "nat list \<Rightarrow> ('w, 'e) Writer \<Rightarrow> DependencyGraph \<Rightarrow> 'w \<Rightarrow> 'e option \<times> 'w" where
  "GraphvizRenderer_Render sched wr graph w =
     (case wr w (''digraph dependencies {'' @ NL) of
        (Some err, w1) \<Rightarrow> (Some err, w1)
      | (None, w1) \<Rightarrow>
     (case wr w1 (''    rankdir=LR;'' @ NL) of
        (Some err, w2) \<Rightarrow> (Some err, w2)
      | (None, w2) \<Rightarrow>
     (case wr w2 (''    node [shape=box, style=rounded];'' @ NL) of
        (Some err, w3) \<Rightarrow> (Some err, w3)
      | (None, w3) \<Rightarrow>
     (case write_each wr w3 (map (Graphviz_node_line graph) (GetAllModules sched graph)) of
        (Some err, w4) \<Rightarrow> (Some err, w4)
      | (None, w4) \<Rightarrow>
     (case write_each wr w4 (map Graphviz_edge_line (Dependencies graph)) of
        (Some err, w5) \<Rightarrow> (Some err, w5)
      | (None, w5) \<Rightarrow> wr w5 (''}'' @ NL))))))"

section \<open>Node-link (HTML) renderer\<close>

text \<open>
  \<open>generateNodes\<close>: the loop carries the index \<open>i\<close> of the module in the slice. The
  label has its double quotes replaced first and its backslashes second, as the source has
  them.
\<close>

definition HTML_node :: "DependencyGraph \<Rightarrow> nat \<times> Module \<Rightarrow> string" where
  "HTML_node graph e =
     (case e of (i, module) \<Rightarrow>
        (let moduleStr = Module_String module;
             escapedLabel = ReplaceAll (ReplaceAll moduleStr DQ (BS @ DQ)) BS (BS @ BS);
             group = (if moduleStr = Module_String (MainModule graph) then 2 else 1 :: nat)
         in ''{'' @ DQ @ ''id'' @ DQ @ '': '' @ Itoa i @ '', '' @ DQ @ ''name'' @ DQ @ '': ''
              @ DQ @ escapedLabel @ DQ @ '', '' @ DQ @ ''group'' @ DQ @ '': '' @ Itoa group
              @ ''}''))"

definition generateNodes :: "nat list \<Rightarrow> DependencyGraph \<Rightarrow> string" where
  "generateNodes sched graph =
     (let modules = GetAllModules sched graph
      in ''['' @ Join (map (HTML_node graph) (enumerate 0 modules)) ('','' @ NL @ ''        '')
           @ '']'')"

text \<open>
  \<open>generateLinks\<close>: \<open>moduleToIndex\<close> maps the canonical string of a module to its
  index in the slice of \<open>GetAllModules\<close>. A number read at a missing key is 0.
\<close>

fun moduleToIndex_loop :: "(nat \<times> Module) list \<Rightarrow> (string, nat) gomap \<Rightarrow> (string, nat) gomap" where
  "moduleToIndex_loop [] moduleToIndex = moduleToIndex"
| "moduleToIndex_loop ((i, module) # rest) moduleToIndex =
     moduleToIndex_loop rest (AList.update (Module_String module) i moduleToIndex)"

definition map_index_int :: "('k, nat) gomap \<Rightarrow> 'k \<Rightarrow> nat" where
  "map_index_int m k = (case map_of m k of None \<Rightarrow> 0 | Some v \<Rightarrow> v)"

definition HTML_link_of :: "nat \<Rightarrow> nat \<Rightarrow> string" where
  "HTML_link_of fromIndex toIndex =
     ''{'' @ DQ @ ''source'' @ DQ @ '': '' @ Itoa fromIndex @ '', '' @ DQ @ ''target'' @ DQ
       @ '': '' @ Itoa toIndex @ ''}''"

definition HTML_link :: "(string, nat) gomap \<Rightarrow> Dependency \<Rightarrow> string" where
  "HTML_link moduleToIndex dep =
     HTML_link_of (map_index_int moduleToIndex (Module_String (From dep)))
       (map_index_int moduleToIndex (Module_String (To dep)))"

definition generateLinks :: "nat list \<Rightarrow> DependencyGraph \<Rightarrow> string" where
  "generateLinks sched graph =
     (let modules = GetAllModules sched graph;
          moduleToIndex = moduleToIndex_loop (enumerate 0 modules) []
      in ''['' @ Join (map (HTML_link moduleToIndex) (Dependencies graph))
                  ('','' @ NL @ ''        '')
           @ '']'')"

text \<open>
  \<open>Render\<close>. The document that \<open>getHTMLTemplate\<close> returns is a constant of some 670
  lines of markup and script; it is the parameter \<open>template\<close> here.
\<close>

definition HTMLRenderer_Render ::
    "string \<Rightarrow> nat list \<Rightarrow> nat list \<Rightarrow> ('w, 'e) Writer \<Rightarrow> DependencyGraph \<Rightarrow> 'w \<Rightarrow> 'e option \<times> 'w" where
  "HTMLRenderer_Render template sched sched' wr graph w =
     (let nodes = generateNodes sched graph;
          links = generateLinks sched' graph;
          html = ReplaceAll template ''{{NODES}}'' nodes;
          html' = ReplaceAll html ''{{LINKS}}'' links
      in wr w html')"

section \<open>Definitions used in the statements\<close>

text \<open>
  The modules that a graph mentions, in the order in which \<open>GetAllModules\<close> stores them:
  the root, then the two ends of every dependency.
\<close>

definition all_modules_seq :: "DependencyGraph \<Rightarrow> Module list" where
  "all_modules_seq dg =
     MainModule dg # concat (map (\<lambda>dep. [From dep, To dep]) (Dependencies dg))"

definition keyed :: "Module list \<Rightarrow> (string \<times> Module) list" where
  "keyed ms = map (\<lambda>m. (Module_String m, m)) ms"

text \<open>
  The adjacency mapping as the specification words it: the canonical string of every
  \<open>from\<close> is mapped to the canonical strings of its \<open>to\<close> modules, in the order of
  the dependency sequence; a string that is no \<open>from\<close> has no entry.
\<close>

definition adjacency_spec :: "Dependency list \<Rightarrow> string \<Rightarrow> string list option" where
  "adjacency_spec deps k =
     (let tos = map (\<lambda>dep. Module_String (To dep))
                  (filter (\<lambda>dep. Module_String (From dep) = k) deps)
      in if tos = [] then None else Some tos)"

text \<open>
  The cache of a graph is in order when it is empty or holds the adjacency mapping of the
  dependency sequence.
\<close>

definition cache_ok :: "DependencyGraph \<Rightarrow> bool" where
  "cache_ok dg = (tree dg = [] \<or> map_of (tree dg) = adjacency_spec (Dependencies dg))"

text \<open>
  A client of the graph store calls \<open>AddDependency\<close> and \<open>GetTree\<close> in any order.
  \<open>added_edges\<close> is the sequence of the dependencies that the calls added.
\<close>

datatype graph_op = Op_AddDependency Module Module | Op_GetTree

fun run_op :: "DependencyGraph \<Rightarrow> graph_op \<Rightarrow> DependencyGraph" where
  "run_op dg (Op_AddDependency from to) = AddDependency dg from to"
| "run_op dg Op_GetTree = fst (GetTree dg)"

fun added_edges :: "graph_op list \<Rightarrow> Dependency list" where
  "added_edges [] = []"
| "added_edges (Op_AddDependency from to # ops) = \<lparr>From = from, To = to\<rparr> # added_edges ops"
| "added_edges (Op_GetTree # ops) = added_edges ops"

text \<open>
  For the traversal of the plaintext renderer: the keys of the adjacency map once the cache
  is filled, the graph as \<open>renderNode\<close> leaves it after \<open>GetTree\<close> and
  \<open>sort.Strings\<close> at a key, and what a call keeps: it returns with fuel to spare, the
  visited set has only grown and the keys of the adjacency map are the same.
\<close>

definition tree_keys :: "DependencyGraph \<Rightarrow> string set" where
  "tree_keys dg = fst ` set (tree (buildTree dg))"

definition after_sort :: "DependencyGraph \<Rightarrow> string \<Rightarrow> DependencyGraph" where
  "after_sort dg k = (buildTree dg)\<lparr>tree := sort_Strings_at (tree (buildTree dg)) k\<rparr>"

definition render_ok :: "DependencyGraph \<Rightarrow> string set \<Rightarrow> ('w, 'e) render_result option \<Rightarrow> bool" where
  "render_ok dg V r =
     (case r of
        None \<Rightarrow> False
      | Some (err, dg', V', w') \<Rightarrow> V \<subseteq> V' \<and> tree_keys dg' = tree_keys dg)"

text \<open>The first position of a string in a sequence of strings, counted from 0.\<close>

definition position_of :: "string list \<Rightarrow> string \<Rightarrow> nat" where
  "position_of xs k = length (takeWhile (\<lambda>x. x \<noteq> k) xs)"

text \<open>
  A sink that keeps every \<open>Write\<close> as one entry of a log and never fails, and the number
  of children that the adjacency map gives a node.
\<close>

definition Log_Write :: "(string list, unit) Writer" where
  "Log_Write log p = (None, log @ [p])"

definition child_count :: "DependencyGraph \<Rightarrow> string \<Rightarrow> nat" where
  "child_count dg k = length (map_index (tree (buildTree dg)) k)"

text \<open>
  What a call that writes \<open>n\<close> lines for the nodes it is given leaves behind, on the log
  sink: no error, a visited set that has grown by finitely many nodes, the same number of
  children for every node, and one more line in the log for every child of every node that
  the call added to the visited set.
\<close>

definition visit_ok ::
    "DependencyGraph \<Rightarrow> string set \<Rightarrow> string list \<Rightarrow> nat \<Rightarrow> (string list, unit) render_result \<Rightarrow> bool" where
  "visit_ok dg V log n r =
     (case r of (err, dg', V', log') \<Rightarrow>
        err = None \<and> V \<subseteq> V' \<and> finite (V' - V) \<and> child_count dg' = child_count dg
        \<and> length log' = length log + n + (\<Sum>k \<in> V' - V. child_count dg k))"

text \<open>
  A graph with a shared dependency: \<open>r\<close> depends on \<open>b\<close> and \<open>a\<close>, both depend on
  \<open>s\<close>, and \<open>s\<close> depends on \<open>t\<close>.
\<close>

definition diamond :: DependencyGraph where
  "diamond =
     AddDependency (AddDependency (AddDependency (AddDependency (AddDependency
       (NewDependencyGraph \<lparr>Path = ''r'', Version = ''''\<rparr>)
       \<lparr>Path = ''r'', Version = ''''\<rparr> \<lparr>Path = ''b'', Version = ''''\<rparr>)
       \<lparr>Path = ''r'', Version = ''''\<rparr> \<lparr>Path = ''a'', Version = ''''\<rparr>)
       \<lparr>Path = ''a'', Version = ''''\<rparr> \<lparr>Path = ''s'', Version = ''''\<rparr>)
       \<lparr>Path = ''b'', Version = ''''\<rparr> \<lparr>Path = ''s'', Version = ''''\<rparr>)
       \<lparr>Path = ''s'', Version = ''''\<rparr> \<lparr>Path = ''t'', Version = ''''\<rparr>"

text \<open>The number that a string of decimal digits denotes.\<close>

definition decimal_value :: "string \<Rightarrow> nat" where
  "decimal_value s = foldl (\<lambda>a c. 10 * a + (of_char c - 48)) 0 s"

section \<open>The graph store: lemmas\<close>

lemma mset_remove_nth:
  "i < length xs \<Longrightarrow> add_mset (xs ! i) (mset (take i xs @ drop (Suc i) xs)) = mset xs"
proof -
  assume "i < length xs"
  then have "xs = take i xs @ xs ! i # drop (Suc i) xs"
    by (rule id_take_nth_drop)
  then have "mset xs = mset (take i xs @ xs ! i # drop (Suc i) xs)"
    by simp
  then show ?thesis by simp
qed

lemma mset_range_order: "mset (range_order ns xs) = mset xs"
proof (induction ns xs rule: range_order.induct)
  case (3 n ns x xs)
  let ?l = "x # xs"
  let ?i = "n mod length ?l"
  have i: "?i < length ?l" by simp
  have "mset (range_order (n # ns) ?l) = add_mset (?l ! ?i) (mset (take ?i ?l @ drop (Suc ?i) ?l))"
    using 3 by (simp add: Let_def del: nth_Cons_Suc take_Suc_Cons drop_Suc_Cons)
  also have "\<dots> = mset ?l"
    using i by (rule mset_remove_nth)
  finally show ?case .
qed simp_all

lemma range_order_complete: "mset ys = mset xs \<Longrightarrow> \<exists>ns. range_order ns xs = ys"
proof (induction ys arbitrary: xs)
  case Nil
  then show ?case by simp
next
  case (Cons y ys)
  then have "y \<in> set xs" by (metis list.set_intros(1) set_mset_mset)
  then obtain i where i: "i < length xs" "xs ! i = y" by (auto simp: in_set_conv_nth)
  then obtain x xs' where xs: "xs = x # xs'" by (cases xs) auto
  let ?r = "take i xs @ drop (Suc i) xs"
  have "add_mset y (mset ?r) = mset xs" using i mset_remove_nth by blast
  with Cons.prems have "add_mset y (mset ys) = add_mset y (mset ?r)" by simp
  then have "mset ys = mset ?r" by (simp only: add_mset_add_mset_same_iff)
  from Cons.IH[OF this] obtain ns where ns: "range_order ns ?r = ys" by blast
  have "range_order (i # ns) xs = y # ys"
    using i ns unfolding xs by (simp add: Let_def del: nth_Cons_Suc take_Suc_Cons drop_Suc_Cons)
  then show ?case by blast
qed

lemma filter_key_distinct:
  "distinct (map f xs) \<Longrightarrow> k \<in> set xs \<Longrightarrow> filter (\<lambda>x. f k = f x) xs = [k]"
proof (induction xs)
  case Nil
  then show ?case by simp
next
  case (Cons a xs)
  show ?case
  proof (cases "a = k")
    case True
    have "filter (\<lambda>x. f k = f x) xs = []"
      using Cons.prems True by (auto simp: filter_empty_conv)
    with True show ?thesis by simp
  next
    case False
    with Cons.prems have "k \<in> set xs" by auto
    moreover from this Cons.prems have "f k \<noteq> f a" by (auto simp: image_iff)
    ultimately have "k \<in> set xs" "f k \<noteq> f a" by auto
    with Cons show ?thesis by simp
  qed
qed

lemma sorted_distinct_keys_unique:
  fixes f :: "'a \<Rightarrow> 'b::linorder"
  assumes m: "mset ys = mset xs" and s: "sorted (map f ys)" and d: "distinct (map f xs)"
  shows "ys = sort_key f xs"
proof -
  have "mset (map f ys) = mset (map f xs)" using m by simp
  then have dy: "distinct (map f ys)" using d by (metis mset_eq_imp_distinct_iff)
  have "sort_key f xs = ys"
  proof (rule properties_for_sort_key [OF m _ s])
    fix k assume k: "k \<in> set ys"
    then have "k \<in> set xs" using m by (metis set_mset_mset)
    then show "filter (\<lambda>x. f k = f x) ys = filter (\<lambda>x. f k = f x) xs"
      using k d dy by (simp add: filter_key_distinct)
  qed
  then show ?thesis by simp
qed

lemma GetDirectDependencies_loop_eq:
  "GetDirectDependencies_loop s ds acc =
     acc @ map To (filter (\<lambda>d. Module_String (From d) = s) ds)"
  by (induction ds arbitrary: acc) simp_all

lemma map_of_moduleSet_loop:
  "map_of (moduleSet_loop ds ms) =
     map_of (rev (keyed (concat (map (\<lambda>dep. [From dep, To dep]) ds))) @ ms)"
proof (induction ds arbitrary: ms)
  case Nil
  then show ?case by (simp add: keyed_def)
next
  case (Cons d ds)
  show ?case
    by (simp add: Cons.IH keyed_def update_conv' map_add_def fun_eq_iff split: option.splits)
qed

lemma map_of_moduleSet_of:
  "map_of (moduleSet_of dg) = map_of (rev (keyed (all_modules_seq dg)))"
  by (simp add: moduleSet_of_def map_of_moduleSet_loop all_modules_seq_def keyed_def)

lemma distinct_moduleSet_loop:
  "distinct (map fst ms) \<Longrightarrow> distinct (map fst (moduleSet_loop ds ms))"
  by (induction ds arbitrary: ms) (simp_all add: distinct_update)

lemma distinct_moduleSet_of: "distinct (map fst (moduleSet_of dg))"
  by (simp add: moduleSet_of_def distinct_moduleSet_loop)

lemma moduleSet_of_entry:
  assumes "(k, m) \<in> set (moduleSet_of dg)"
  shows "k = Module_String m \<and> m \<in> set (all_modules_seq dg)"
proof -
  have "map_of (moduleSet_of dg) k = Some m"
    using assms distinct_moduleSet_of by simp
  then have "map_of (rev (keyed (all_modules_seq dg))) k = Some m"
    by (simp add: map_of_moduleSet_of)
  then have "(k, m) \<in> set (rev (keyed (all_modules_seq dg)))"
    by (rule map_of_SomeD)
  then show ?thesis by (auto simp: keyed_def)
qed

lemma keys_moduleSet_of:
  "fst ` set (moduleSet_of dg) = Module_String ` set (all_modules_seq dg)"
proof -
  have "fst ` set (moduleSet_of dg) = dom (map_of (moduleSet_of dg))"
    by (simp add: dom_map_of_conv_image_fst)
  also have "\<dots> = fst ` set (rev (keyed (all_modules_seq dg)))"
    by (simp only: map_of_moduleSet_of dom_map_of_conv_image_fst)
  also have "\<dots> = Module_String ` set (all_modules_seq dg)"
    by (simp add: keyed_def image_image)
  finally show ?thesis .
qed

lemma map_String_moduleSet_of:
  "map Module_String (map snd (moduleSet_of dg)) = map fst (moduleSet_of dg)"
  using moduleSet_of_entry [of _ _ dg] by (induction "moduleSet_of dg") auto

lemma distinct_keys_moduleSet_values:
  "distinct (map Module_String (map snd (moduleSet_of dg)))"
  by (simp only: map_String_moduleSet_of distinct_moduleSet_of)

lemma set_moduleSet_values:
  "set (map snd (moduleSet_of dg)) \<subseteq> set (all_modules_seq dg)"
  using moduleSet_of_entry [of _ _ dg] by auto

lemma keys_moduleSet_values:
  "Module_String ` set (map snd (moduleSet_of dg)) = Module_String ` set (all_modules_seq dg)"
proof -
  have "Module_String ` set (map snd (moduleSet_of dg))
          = set (map Module_String (map snd (moduleSet_of dg)))"
    by (simp only: set_map)
  also have "\<dots> = fst ` set (moduleSet_of dg)"
    by (simp only: map_String_moduleSet_of set_map)
  finally show ?thesis by (simp only: keys_moduleSet_of)
qed

lemma mset_GetAllModules:
  "mset (GetAllModules sched dg) = mset (map snd (moduleSet_of dg))"
  by (simp add: GetAllModules_def mset_range_order)

lemma set_GetAllModules:
  "set (GetAllModules sched dg) = set (map snd (moduleSet_of dg))"
  using mset_GetAllModules [of sched dg] by (metis set_mset_mset)

lemma sorted_GetAllModules: "sorted (map Module_String (GetAllModules sched dg))"
  by (simp add: GetAllModules_def)

lemma distinct_GetAllModules: "distinct (map Module_String (GetAllModules sched dg))"
proof -
  have "mset (map Module_String (GetAllModules sched dg))
          = mset (map Module_String (map snd (moduleSet_of dg)))"
    using mset_GetAllModules [of sched dg] by (metis mset_map)
  then show ?thesis
    using distinct_keys_moduleSet_values [of dg] by (metis mset_eq_imp_distinct_iff)
qed

lemma GetAllModules_any_sort:
  assumes "mset ys = mset (map snd (moduleSet_of dg))" and "sorted (map Module_String ys)"
  shows "ys = GetAllModules sched dg"
proof -
  let ?vals = "map snd (moduleSet_of dg)"
  have d: "distinct (map Module_String ?vals)"
    by (rule distinct_keys_moduleSet_values)
  have "ys = sort_key Module_String ?vals"
    using assms d by (rule sorted_distinct_keys_unique)
  moreover have "GetAllModules sched dg = sort_key Module_String ?vals"
    using mset_GetAllModules sorted_GetAllModules d by (rule sorted_distinct_keys_unique)
  ultimately show ?thesis by simp
qed

lemma GetAllModules_schedule: "GetAllModules sched' dg = GetAllModules sched dg"
  using mset_GetAllModules sorted_GetAllModules by (rule GetAllModules_any_sort)

lemma keys_GetAllModules:
  "Module_String ` set (GetAllModules sched dg) = Module_String ` set (all_modules_seq dg)"
  by (simp only: set_GetAllModules keys_moduleSet_values)

lemma all_modules_seq_members:
  "set (all_modules_seq dg) =
     insert (MainModule dg) (From ` set (Dependencies dg) \<union> To ` set (Dependencies dg))"
  by (auto simp: all_modules_seq_def)

lemma GetAllModules_no_dependencies:
  "GetAllModules sched (dg\<lparr>Dependencies := []\<rparr>) = [MainModule dg]"
proof -
  have "moduleSet_of (dg\<lparr>Dependencies := []\<rparr>) = [(Module_String (MainModule dg), MainModule dg)]"
    by (simp add: moduleSet_of_def)
  then show ?thesis
    by (cases sched) (simp_all add: GetAllModules_def)
qed

lemma GetDirectDependencies_eq:
  "GetDirectDependencies dg m =
     map To (filter (\<lambda>dep. Module_String (From dep) = Module_String m) (Dependencies dg))"
  by (simp add: GetDirectDependencies_def GetDirectDependencies_loop_eq)

lemma tree_keys_buildTree_loop:
  "map_of (buildTree_loop ds t) k =
     (case map_of t k of
        None \<Rightarrow> adjacency_spec ds k
      | Some old \<Rightarrow> Some (old @ map (\<lambda>dep. Module_String (To dep))
                                  (filter (\<lambda>dep. Module_String (From dep) = k) ds)))"
proof (induction ds arbitrary: t)
  case Nil
  then show ?case by (simp add: adjacency_spec_def split: option.splits)
next
  case (Cons d ds)
  show ?case
    by (simp add: Cons.IH Let_def update_conv' map_index_def adjacency_spec_def
             split: option.splits)
qed

lemma map_of_buildTree_loop_empty: "map_of (buildTree_loop ds []) = adjacency_spec ds"
  by (rule ext) (simp add: tree_keys_buildTree_loop)

lemma adjacency_spec_Nil: "adjacency_spec [] = Map.empty"
  by (rule ext) (simp add: adjacency_spec_def)

lemma map_of_GetTree:
  "cache_ok dg \<Longrightarrow> map_of (snd (GetTree dg)) = adjacency_spec (Dependencies dg)"
  by (auto simp: cache_ok_def GetTree_def buildTree_def Let_def map_of_buildTree_loop_empty)

lemma cache_ok_GetTree: "cache_ok dg \<Longrightarrow> cache_ok (fst (GetTree dg))"
  by (auto simp: cache_ok_def GetTree_def buildTree_def Let_def map_of_buildTree_loop_empty)

lemma cache_ok_AddDependency: "cache_ok (AddDependency dg f t)"
  by (simp add: cache_ok_def AddDependency_def)

lemma cache_ok_New: "cache_ok (NewDependencyGraph r)"
  by (simp add: cache_ok_def NewDependencyGraph_def)

lemma cache_ok_run_op: "cache_ok dg \<Longrightarrow> cache_ok (run_op dg op)"
  by (cases op) (simp_all add: cache_ok_AddDependency cache_ok_GetTree)

lemma cache_ok_foldl: "cache_ok dg \<Longrightarrow> cache_ok (foldl run_op dg ops)"
  by (induction ops arbitrary: dg) (simp_all add: cache_ok_run_op)

lemma Dependencies_run_op: "Dependencies (run_op dg op) = Dependencies dg @ added_edges [op]"
  by (cases op) (simp_all add: AddDependency_def GetTree_def buildTree_def Let_def)

lemma added_edges_append: "added_edges (xs @ ys) = added_edges xs @ added_edges ys"
  by (induction xs rule: added_edges.induct) simp_all

lemma Dependencies_foldl:
  "Dependencies (foldl run_op dg ops) = Dependencies dg @ added_edges ops"
proof (induction ops arbitrary: dg)
  case Nil
  then show ?case by simp
next
  case (Cons op ops)
  have "added_edges (op # ops) = added_edges [op] @ added_edges ops"
    using added_edges_append [of "[op]" ops] by simp
  then show ?case by (simp add: Cons.IH Dependencies_run_op del: added_edges.simps)
qed


section \<open>The graph store: claims\<close>

text \<open>
  C1. For every graph and every order in which the runtime ranges over \<open>moduleSet\<close>,
  \<open>GetAllModules\<close> returns the root and the two ends of every dependency, one module for
  each canonical string: the canonical strings of the result are exactly those of the root,
  the \<open>from\<close> and the \<open>to\<close> modules, every module of the result is one of these
  modules, and the result is sorted ascending by canonical string without a repeated
  canonical string. The canonical string of the root is in the result, and with no
  dependency the result is the root alone. Two calls on the same graph return the same
  sequence, whatever the two orders of ranging over the map are.
\<close>

theorem GetAllModules_sorted_dedup:
  "Module_String ` set (GetAllModules sched dg)
     = Module_String ` (insert (MainModule dg)
         (From ` set (Dependencies dg) \<union> To ` set (Dependencies dg)))
   \<and> set (GetAllModules sched dg)
     \<subseteq> insert (MainModule dg) (From ` set (Dependencies dg) \<union> To ` set (Dependencies dg))
   \<and> sorted (map Module_String (GetAllModules sched dg))
   \<and> distinct (map Module_String (GetAllModules sched dg))
   \<and> Module_String (MainModule dg) \<in> set (map Module_String (GetAllModules sched dg))
   \<and> GetAllModules sched (dg\<lparr>Dependencies := []\<rparr>) = [MainModule dg]
   \<and> GetAllModules sched' dg = GetAllModules sched dg"
proof -
  have keys: "Module_String ` set (GetAllModules sched dg)
      = Module_String ` (insert (MainModule dg)
          (From ` set (Dependencies dg) \<union> To ` set (Dependencies dg)))"
    by (simp only: keys_GetAllModules all_modules_seq_members)
  have sub: "set (GetAllModules sched dg)
      \<subseteq> insert (MainModule dg) (From ` set (Dependencies dg) \<union> To ` set (Dependencies dg))"
    using set_moduleSet_values [of dg]
    by (simp only: set_GetAllModules all_modules_seq_members)
  have root: "Module_String (MainModule dg) \<in> set (map Module_String (GetAllModules sched dg))"
    using keys by (simp only: set_map) blast
  show ?thesis
    using keys sub root sorted_GetAllModules [of sched dg] distinct_GetAllModules [of sched dg]
      GetAllModules_no_dependencies [of sched dg] GetAllModules_schedule [of sched' dg sched]
    by (intro conjI)
qed

text \<open>
  C5. On a graph made by \<open>NewDependencyGraph\<close>, after any sequence of calls of
  \<open>AddDependency\<close>, with calls of \<open>GetTree\<close> anywhere between them, \<open>GetTree\<close>
  returns the adjacency mapping of the dependency sequence as it is then, and that sequence
  is the added dependencies in the order of the calls.
\<close>

theorem GetTree_never_stale:
  "map_of (snd (GetTree (foldl run_op (NewDependencyGraph root) ops)))
     = adjacency_spec (Dependencies (foldl run_op (NewDependencyGraph root) ops))
   \<and> Dependencies (foldl run_op (NewDependencyGraph root) ops) = added_edges ops"
proof -
  let ?dg = "foldl run_op (NewDependencyGraph root) ops"
  have d: "Dependencies ?dg = added_edges ops"
    by (simp add: Dependencies_foldl NewDependencyGraph_def)
  have "cache_ok ?dg" by (simp add: cache_ok_foldl cache_ok_New)
  then have "map_of (snd (GetTree ?dg)) = adjacency_spec (Dependencies ?dg)"
    by (rule map_of_GetTree)
  with d show ?thesis by simp
qed

text \<open>
  C7. \<open>GetDirectDependencies\<close> of a module returns the \<open>to\<close> modules of the
  dependencies whose \<open>from\<close> has the canonical string of the module, in the order of the
  dependency sequence. No entry is dropped: a dependency added twice gives two entries.
\<close>

theorem GetDirectDependencies_in_order:
  "GetDirectDependencies dg m
     = map To (filter (\<lambda>dep. Module_String (From dep) = Module_String m) (Dependencies dg))
   \<and> GetDirectDependencies (AddDependency (AddDependency dg m to) m to) m
     = GetDirectDependencies dg m @ [to, to]"
  by (simp add: GetDirectDependencies_eq AddDependency_def)

text \<open>
  C10. Modules are told apart by canonical string, not by their fields. The result of
  \<open>GetAllModules\<close> never holds two modules with the same canonical string, and it holds
  exactly one module with the canonical string of a module that the graph mentions. For two
  modules \<open>m\<close> and \<open>m'\<close> with the same canonical string, \<open>GetDirectDependencies\<close>
  of \<open>m\<close> is \<open>GetDirectDependencies\<close> of \<open>m'\<close>, so it returns the \<open>to\<close> of every
  dependency whose \<open>from\<close> is \<open>m'\<close>.
\<close>

theorem canonical_string_identity:
  assumes "Module_String m = Module_String m'" and "m \<in> set (all_modules_seq dg)"
  shows "distinct (map Module_String (GetAllModules sched dg))
    \<and> length (filter (\<lambda>x. Module_String m = Module_String x) (GetAllModules sched dg)) = 1
    \<and> GetDirectDependencies dg m = GetDirectDependencies dg m'
    \<and> To ` {dep \<in> set (Dependencies dg). From dep = m'} \<subseteq> set (GetDirectDependencies dg m)"
proof -
  have d: "distinct (map Module_String (GetAllModules sched dg))"
    by (rule distinct_GetAllModules)
  have "Module_String m \<in> Module_String ` set (GetAllModules sched dg)"
    using assms(2) by (simp only: keys_GetAllModules) (rule imageI)
  then obtain x where x: "x \<in> set (GetAllModules sched dg)" "Module_String m = Module_String x"
    by blast
  have "filter (\<lambda>y. Module_String x = Module_String y) (GetAllModules sched dg) = [x]"
    using d x(1) by (rule filter_key_distinct)
  then have one: "length (filter (\<lambda>y. Module_String m = Module_String y) (GetAllModules sched dg)) = 1"
    by (simp add: x(2))
  have same: "GetDirectDependencies dg m = GetDirectDependencies dg m'"
    by (simp add: GetDirectDependencies_eq assms(1))
  have sub: "To ` {dep \<in> set (Dependencies dg). From dep = m'} \<subseteq> set (GetDirectDependencies dg m)"
    by (auto simp: GetDirectDependencies_eq assms(1))
  show ?thesis using d one same sub by (intro conjI)
qed

theorem canonical_string_identity_witness:
  "Module_String \<lparr>Path = ''a@b'', Version = ''''\<rparr> = Module_String \<lparr>Path = ''a'', Version = ''b''\<rparr>
   \<and> GetDirectDependencies
        (AddDependency (NewDependencyGraph \<lparr>Path = ''a@b'', Version = ''''\<rparr>)
           \<lparr>Path = ''a'', Version = ''b''\<rparr> \<lparr>Path = ''c'', Version = ''''\<rparr>)
        \<lparr>Path = ''a@b'', Version = ''''\<rparr>
      = [\<lparr>Path = ''c'', Version = ''''\<rparr>]
   \<and> length (filter (\<lambda>x. Module_String \<lparr>Path = ''a@b'', Version = ''''\<rparr> = Module_String x)
        (GetAllModules []
          (AddDependency (NewDependencyGraph \<lparr>Path = ''a@b'', Version = ''''\<rparr>)
             \<lparr>Path = ''a'', Version = ''b''\<rparr> \<lparr>Path = ''c'', Version = ''''\<rparr>))) = 1"
proof -
  let ?m = "\<lparr>Path = ''a@b'', Version = ''''\<rparr>"
  let ?m' = "\<lparr>Path = ''a'', Version = ''b''\<rparr>"
  let ?dg = "AddDependency (NewDependencyGraph ?m) ?m' \<lparr>Path = ''c'', Version = ''''\<rparr>"
  have h1: "Module_String ?m = Module_String ?m'"
    by (simp add: Module_String_def)
  have h2: "?m \<in> set (all_modules_seq ?dg)"
    by (simp add: all_modules_seq_def AddDependency_def NewDependencyGraph_def)
  have v: "GetDirectDependencies ?dg ?m' = [\<lparr>Path = ''c'', Version = ''''\<rparr>]"
    by (simp add: GetDirectDependencies_def AddDependency_def NewDependencyGraph_def
          Module_String_def)
  show ?thesis
    using h1 v canonical_string_identity [OF h1 h2, of "[]"] by simp
qed

section \<open>Plaintext tree renderer: lemmas\<close>

lemma buildTree_idem: "buildTree (buildTree dg) = buildTree dg"
  by (simp add: buildTree_def)

lemma keys_sort_Strings_at: "fst ` set (sort_Strings_at t k) = fst ` set t"
proof (cases "map_of t k")
  case None
  then show ?thesis by (simp add: sort_Strings_at_def)
next
  case (Some v)
  then have "k \<in> fst ` set t" by (metis domI dom_map_of_conv_image_fst)
  with Some show ?thesis by (auto simp: sort_Strings_at_def dom_update)
qed

lemma sort_Strings_at_Nil: "sort_Strings_at t k = [] \<longleftrightarrow> t = []"
proof (cases "map_of t k")
  case None
  then show ?thesis by (simp add: sort_Strings_at_def)
next
  case (Some v)
  then have "t \<noteq> []" by auto
  moreover have "AList.update k (sort v) t \<noteq> []" by (cases t) auto
  ultimately show ?thesis using Some by (simp add: sort_Strings_at_def)
qed

lemma tree_keys_after_sort: "tree_keys (after_sort dg k) = tree_keys dg"
proof (cases "tree (buildTree dg) = []")
  case True
  then have "after_sort dg k = buildTree dg"
    by (simp add: after_sort_def sort_Strings_at_def)
  then show ?thesis by (simp add: tree_keys_def buildTree_idem)
next
  case False
  then have "tree (after_sort dg k) \<noteq> []"
    by (simp add: after_sort_def sort_Strings_at_Nil)
  then have "buildTree (after_sort dg k) = after_sort dg k"
    by (simp add: buildTree_def)
  then show ?thesis
    by (simp add: tree_keys_def) (simp add: after_sort_def keys_sort_Strings_at)
qed

lemma finite_tree_keys: "finite (tree_keys dg)"
  by (simp add: tree_keys_def)

lemma map_index_no_key: "k \<notin> tree_keys dg \<Longrightarrow> map_index (tree (buildTree dg)) k = []"
  by (simp add: tree_keys_def map_index_def map_of_eq_None_iff [THEN iffD2])

lemma renderNode_write_error:
  "wr w (prefix @ connector_of prefix isLast @ nodeKey @ NL) = (Some err, w')
   \<Longrightarrow> renderNode (Suc fuel) wr dg nodeKey prefix isLast V w = Some (Some err, dg, V, w')"
  by simp

lemma renderNode_revisit:
  "wr w (prefix @ connector_of prefix isLast @ nodeKey @ NL) = (None, w') \<Longrightarrow> nodeKey \<in> V
   \<Longrightarrow> renderNode (Suc fuel) wr dg nodeKey prefix isLast V w = Some (None, dg, V, w')"
  by simp

lemma renderNode_first_visit:
  "wr w (prefix @ connector_of prefix isLast @ nodeKey @ NL) = (None, w') \<Longrightarrow> nodeKey \<notin> V
   \<Longrightarrow> renderNode (Suc fuel) wr dg nodeKey prefix isLast V w
       = renderNode_children fuel wr (after_sort dg nodeKey)
           (sort (map_index (tree (buildTree dg)) nodeKey))
           (newPrefix_of prefix isLast) (insert nodeKey V) w'"
  by (simp add: GetTree_def Let_def after_sort_def)

lemma render_ok_trans:
  "render_ok dg' V' r \<Longrightarrow> V \<subseteq> V' \<Longrightarrow> tree_keys dg' = tree_keys dg \<Longrightarrow> render_ok dg V r"
  by (cases r) (auto simp: render_ok_def)

lemma render_ok_Some: "render_ok dg V r \<Longrightarrow> \<exists>x. r = Some x"
  by (cases r) (simp_all add: render_ok_def del: split_paired_Ex)

lemma children_ok:
  assumes P: "\<And>dg nodeKey prefix isLast V w. card (tree_keys dg - V) \<le> m \<Longrightarrow>
            render_ok dg V (renderNode fuel wr dg nodeKey prefix isLast V w)"
  shows "card (tree_keys dg - V) \<le> m \<Longrightarrow>
           render_ok dg V (renderNode_children fuel wr dg deps np V w)"
proof (induction deps arbitrary: dg V w)
  case Nil
  then show ?case by (simp add: render_ok_def)
next
  case (Cons dep rest)
  have ok: "render_ok dg V (renderNode fuel wr dg dep np (rest = []) V w)"
    using Cons.prems by (rule P)
  then obtain x where "renderNode fuel wr dg dep np (rest = []) V w = Some x"
    using render_ok_Some by blast
  then obtain e dg1 V1 w1 where
    r: "renderNode fuel wr dg dep np (rest = []) V w = Some (e, dg1, V1, w1)"
    by (cases x) simp
  with ok have sub: "V \<subseteq> V1" and keys: "tree_keys dg1 = tree_keys dg"
    by (simp_all add: render_ok_def)
  show ?case
  proof (cases e)
    case (Some err)
    with r sub keys show ?thesis by (simp add: render_ok_def)
  next
    case None
    have "tree_keys dg - V1 \<subseteq> tree_keys dg - V" using sub by blast
    then have "card (tree_keys dg - V1) \<le> card (tree_keys dg - V)"
      by (intro card_mono) (simp_all add: finite_tree_keys)
    with Cons.prems keys have "card (tree_keys dg1 - V1) \<le> m" by simp
    then have "render_ok dg1 V1 (renderNode_children fuel wr dg1 rest np V1 w1)"
      by (rule Cons.IH)
    then have "render_ok dg V (renderNode_children fuel wr dg1 rest np V1 w1)"
      using sub keys by (rule render_ok_trans)
    with r None show ?thesis by simp
  qed
qed

lemma renderNode_ok:
  "card (tree_keys dg - V) \<le> m \<Longrightarrow>
     render_ok dg V (renderNode (Suc m) wr dg nodeKey prefix isLast V w)"
proof (induction m arbitrary: dg nodeKey prefix isLast V w)
  case 0
  let ?line = "prefix @ connector_of prefix isLast @ nodeKey @ NL"
  obtain e w' where wr: "wr w ?line = (e, w')" by (cases "wr w ?line")
  show ?case
  proof (cases e)
    case (Some err)
    with wr show ?thesis by (simp add: render_ok_def)
  next
    case None
    show ?thesis
    proof (cases "nodeKey \<in> V")
      case True
      with wr None show ?thesis by (simp add: render_ok_def)
    next
      case False
      from 0 have "tree_keys dg - V = {}" by (simp add: finite_tree_keys)
      with False have "nodeKey \<notin> tree_keys dg" by blast
      then have "map_index (tree (buildTree dg)) nodeKey = []" by (rule map_index_no_key)
      with wr None False show ?thesis
        by (simp add: renderNode_first_visit render_ok_def tree_keys_after_sort subset_insertI
              del: renderNode.simps)
    qed
  qed
next
  case (Suc m)
  let ?line = "prefix @ connector_of prefix isLast @ nodeKey @ NL"
  obtain e w' where wr: "wr w ?line = (e, w')" by (cases "wr w ?line")
  show ?case
  proof (cases e)
    case (Some err)
    with wr show ?thesis by (simp add: render_ok_def)
  next
    case None
    show ?thesis
    proof (cases "nodeKey \<in> V")
      case True
      with wr None show ?thesis by (simp add: render_ok_def)
    next
      case False
      let ?dg = "after_sort dg nodeKey" and ?V = "insert nodeKey V"
      have step: "renderNode (Suc (Suc m)) wr dg nodeKey prefix isLast V w
          = renderNode_children (Suc m) wr ?dg (sort (map_index (tree (buildTree dg)) nodeKey))
              (newPrefix_of prefix isLast) ?V w'"
        using wr None False by (simp add: renderNode_first_visit del: renderNode.simps)
      show ?thesis
      proof (cases "nodeKey \<in> tree_keys dg")
        case False
        then have "map_index (tree (buildTree dg)) nodeKey = []" by (rule map_index_no_key)
        then show ?thesis
          by (simp add: step render_ok_def tree_keys_after_sort subset_insertI
                del: renderNode.simps)
      next
        case True
        with \<open>nodeKey \<notin> V\<close> have "tree_keys dg - ?V \<subset> tree_keys dg - V" by blast
        then have "card (tree_keys dg - ?V) < card (tree_keys dg - V)"
          by (intro psubset_card_mono) (simp_all add: finite_tree_keys)
        with Suc.prems have "card (tree_keys ?dg - ?V) \<le> m"
          by (simp add: tree_keys_after_sort)
        then have "render_ok ?dg ?V
            (renderNode_children (Suc m) wr ?dg (sort (map_index (tree (buildTree dg)) nodeKey))
              (newPrefix_of prefix isLast) ?V w')"
          using Suc.IH by (rule children_ok [rotated])
        then show ?thesis
          unfolding step by (rule render_ok_trans) (auto simp: tree_keys_after_sort)
      qed
    qed
  qed
qed

lemma children_more_fuel:
  assumes A: "\<And>dg nodeKey prefix isLast V w r.
            renderNode n wr dg nodeKey prefix isLast V w = Some r \<Longrightarrow>
            renderNode (Suc n) wr dg nodeKey prefix isLast V w = Some r"
  shows "renderNode_children n wr dg deps np V w = Some r \<Longrightarrow>
           renderNode_children (Suc n) wr dg deps np V w = Some r"
proof (induction deps arbitrary: dg V w)
  case Nil
  then show ?case by simp
next
  case (Cons dep rest)
  from Cons.prems obtain x where x: "renderNode n wr dg dep np (rest = []) V w = Some x"
    by (cases "renderNode n wr dg dep np (rest = []) V w") simp_all
  then have x': "renderNode (Suc n) wr dg dep np (rest = []) V w = Some x"
    by (rule A)
  obtain e dg1 V1 w1 where t: "x = (e, dg1, V1, w1)" by (cases x)
  note y = x [unfolded t] and y' = x' [unfolded t]
  show ?case
  proof (cases e)
    case (Some err)
    from Cons.prems have "r = (Some err, dg1, V1, w1)"
      by (simp add: y Some)
    then show ?thesis by (simp add: y' Some del: renderNode.simps)
  next
    case None
    from Cons.prems have "renderNode_children n wr dg1 rest np V1 w1 = Some r"
      by (simp add: y None)
    then have "renderNode_children (Suc n) wr dg1 rest np V1 w1 = Some r"
      by (rule Cons.IH)
    then show ?thesis by (simp add: y' None del: renderNode.simps)
  qed
qed

lemma renderNode_more_fuel_step:
  "renderNode n wr dg nodeKey prefix isLast V w = Some r \<Longrightarrow>
     renderNode (Suc n) wr dg nodeKey prefix isLast V w = Some r"
proof (induction n arbitrary: dg nodeKey prefix isLast V w r)
  case 0
  then show ?case by simp
next
  case (Suc n)
  let ?line = "prefix @ connector_of prefix isLast @ nodeKey @ NL"
  obtain e w' where wr: "wr w ?line = (e, w')" by (cases "wr w ?line")
  show ?case
  proof (cases "e = None \<and> nodeKey \<notin> V")
    case False
    with wr Suc.prems show ?thesis by (cases e) auto
  next
    case True
    then have wr': "wr w ?line = (None, w')" and nv: "nodeKey \<notin> V" using wr by simp_all
    from Suc.prems wr' nv have "renderNode_children n wr (after_sort dg nodeKey)
        (sort (map_index (tree (buildTree dg)) nodeKey)) (newPrefix_of prefix isLast)
        (insert nodeKey V) w' = Some r"
      by (simp add: renderNode_first_visit del: renderNode.simps)
    then have "renderNode_children (Suc n) wr (after_sort dg nodeKey)
        (sort (map_index (tree (buildTree dg)) nodeKey)) (newPrefix_of prefix isLast)
        (insert nodeKey V) w' = Some r"
      using Suc.IH by (rule children_more_fuel [rotated])
    with wr' nv show ?thesis
      by (simp add: renderNode_first_visit del: renderNode.simps)
  qed
qed

lemma renderNode_more_fuel:
  "renderNode n wr dg nodeKey prefix isLast V w = Some r \<Longrightarrow>
     renderNode (n + extra) wr dg nodeKey prefix isLast V w = Some r"
  by (induction extra) (simp_all add: renderNode_more_fuel_step del: renderNode.simps)

lemma card_tree_keys: "card (tree_keys dg - V) \<le> length (tree (buildTree dg))"
proof -
  have "card (tree_keys dg - V) \<le> card (tree_keys dg)"
    by (intro card_mono) (simp_all add: finite_tree_keys)
  also have "\<dots> \<le> card (set (tree (buildTree dg)))"
    unfolding tree_keys_def by (rule card_image_le) simp
  also have "\<dots> \<le> length (tree (buildTree dg))"
    by (rule card_length)
  finally show ?thesis .
qed

lemma renderNode_returns:
  "\<exists>r. \<forall>extra. renderNode (Suc (length (tree (buildTree dg))) + extra) wr dg nodeKey prefix
      isLast V w = Some r"
proof -
  have "render_ok dg V
      (renderNode (Suc (length (tree (buildTree dg)))) wr dg nodeKey prefix isLast V w)"
    using card_tree_keys by (rule renderNode_ok)
  then obtain r where
    "renderNode (Suc (length (tree (buildTree dg)))) wr dg nodeKey prefix isLast V w = Some r"
    using render_ok_Some by blast
  then have "\<forall>extra. renderNode (Suc (length (tree (buildTree dg))) + extra) wr dg nodeKey
      prefix isLast V w = Some r"
    by (intro allI renderNode_more_fuel)
  then show ?thesis by (rule exI)
qed


lemma map_of_sort_Strings_at:
  "map_of (sort_Strings_at t k) k'
     = (if k' = k then map_option sort (map_of t k) else map_of t k')"
  by (cases "map_of t k") (simp_all add: sort_Strings_at_def update_conv')

lemma length_map_index_sort_Strings_at:
  "length (map_index (sort_Strings_at t k) k') = length (map_index t k')"
  by (cases "map_of t k") (simp_all add: map_index_def map_of_sort_Strings_at)

lemma after_sort_empty: "tree (buildTree dg) = [] \<Longrightarrow> after_sort dg k = buildTree dg"
  by (simp add: after_sort_def sort_Strings_at_def)

lemma buildTree_after_sort:
  "tree (buildTree dg) \<noteq> [] \<Longrightarrow> buildTree (after_sort dg k) = after_sort dg k"
  by (simp add: buildTree_def after_sort_def sort_Strings_at_Nil)

lemma child_count_after_sort_at: "child_count (after_sort dg k) k' = child_count dg k'"
proof (cases "tree (buildTree dg) = []")
  case True
  then show ?thesis by (simp add: after_sort_empty child_count_def buildTree_idem)
next
  case False
  have "child_count (after_sort dg k) k' = length (map_index (tree (after_sort dg k)) k')"
    using False by (simp add: child_count_def buildTree_after_sort)
  also have "\<dots> = length (map_index (sort_Strings_at (tree (buildTree dg)) k) k')"
    by (simp add: after_sort_def)
  also have "\<dots> = child_count dg k'"
    by (simp add: length_map_index_sort_Strings_at child_count_def)
  finally show ?thesis .
qed

lemma child_count_after_sort: "child_count (after_sort dg k) = child_count dg"
  by (rule ext) (rule child_count_after_sort_at)

lemma sum_new_node:
  fixes f :: "string \<Rightarrow> nat"
  assumes "k \<notin> V" and "insert k V \<subseteq> V'" and "finite (V' - insert k V)"
  shows "(\<Sum>x \<in> V' - V. f x) = f k + (\<Sum>x \<in> V' - insert k V. f x)"
proof -
  have eq: "V' - V = insert k (V' - insert k V)" using assms(1,2) by blast
  have notin: "k \<notin> V' - insert k V" by blast
  show ?thesis
    by (subst eq) (rule sum.insert [OF assms(3) notin])
qed

lemma sum_two_steps:
  fixes f :: "string \<Rightarrow> nat"
  assumes "V \<subseteq> V1" and "V1 \<subseteq> V'" and "finite (V1 - V)" and "finite (V' - V1)"
  shows "(\<Sum>x \<in> V' - V. f x) = (\<Sum>x \<in> V1 - V. f x) + (\<Sum>x \<in> V' - V1. f x)"
proof -
  have eq: "V' - V = (V1 - V) \<union> (V' - V1)" using assms(1,2) by blast
  have disj: "(V1 - V) \<inter> (V' - V1) = {}" by blast
  show ?thesis
    by (subst eq) (rule sum.union_disjoint [OF assms(3,4) disj])
qed

lemma children_visit:
  assumes P: "\<And>dg nodeKey prefix isLast V log r.
            renderNode n Log_Write dg nodeKey prefix isLast V log = Some r \<Longrightarrow>
            visit_ok dg V log 1 r \<and> nodeKey \<in> fst (snd (snd r))"
  shows "renderNode_children n Log_Write dg deps np V log = Some r \<Longrightarrow>
           visit_ok dg V log (length deps) r \<and> set deps \<subseteq> fst (snd (snd r))"
proof (induction deps arbitrary: dg V log)
  case Nil
  then show ?case by (auto simp: visit_ok_def)
next
  case (Cons dep rest)
  from Cons.prems obtain x where x: "renderNode n Log_Write dg dep np (rest = []) V log = Some x"
    by (cases "renderNode n Log_Write dg dep np (rest = []) V log") simp_all
  obtain e dg1 V1 log1 where t: "x = (e, dg1, V1, log1)" by (cases x)
  note y = x [unfolded t]
  from P [OF y] have ok1: "visit_ok dg V log 1 (e, dg1, V1, log1)" and in1: "dep \<in> V1"
    by simp_all
  then have e: "e = None" and sub1: "V \<subseteq> V1" and fin1: "finite (V1 - V)"
    and cc1: "child_count dg1 = child_count dg"
    and len1: "length log1 = length log + 1 + (\<Sum>k \<in> V1 - V. child_count dg k)"
    by (simp_all add: visit_ok_def)
  from Cons.prems have rest: "renderNode_children n Log_Write dg1 rest np V1 log1 = Some r"
    by (simp add: y e)
  obtain e' dg' V' log' where r: "r = (e', dg', V', log')" by (cases r)
  from Cons.IH [OF rest] have ok2: "visit_ok dg1 V1 log1 (length rest) r" and in2: "set rest \<subseteq> V'"
    by (simp_all add: r)
  then have e': "e' = None" and sub2: "V1 \<subseteq> V'" and fin2: "finite (V' - V1)"
    and cc2: "child_count dg' = child_count dg1"
    and len2: "length log' = length log1 + length rest + (\<Sum>k \<in> V' - V1. child_count dg1 k)"
    by (simp_all add: visit_ok_def r)
  have fin: "finite (V' - V)"
  proof -
    have "V' - V \<subseteq> (V1 - V) \<union> (V' - V1)" by blast
    then show ?thesis using fin1 fin2 by (meson finite_UnI finite_subset)
  qed
  have "(\<Sum>k \<in> V' - V. child_count dg k)
      = (\<Sum>k \<in> V1 - V. child_count dg k) + (\<Sum>k \<in> V' - V1. child_count dg k)"
    using sub1 sub2 fin1 fin2 by (rule sum_two_steps)
  with len1 len2 cc1 have "length log' = length log + length (dep # rest)
      + (\<Sum>k \<in> V' - V. child_count dg k)"
    by simp
  with e' sub1 sub2 fin cc1 cc2 in1 in2 show ?case
    by (auto simp: visit_ok_def r)
qed

lemma renderNode_visit:
  "renderNode n Log_Write dg nodeKey prefix isLast V log = Some r \<Longrightarrow>
     visit_ok dg V log 1 r \<and> nodeKey \<in> fst (snd (snd r))"
proof (induction n arbitrary: dg nodeKey prefix isLast V log r)
  case 0
  then show ?case by simp
next
  case (Suc n)
  let ?line = "prefix @ connector_of prefix isLast @ nodeKey @ NL"
  have wr: "Log_Write log ?line = (None, log @ [?line])" by (simp add: Log_Write_def)
  show ?case
  proof (cases "nodeKey \<in> V")
    case True
    with Suc.prems wr have "r = (None, dg, V, log @ [?line])"
      by (simp add: renderNode_revisit del: renderNode.simps)
    with True show ?thesis by (simp add: visit_ok_def)
  next
    case False
    let ?dg = "after_sort dg nodeKey" and ?V = "insert nodeKey V"
    let ?deps = "sort (map_index (tree (buildTree dg)) nodeKey)"
    from Suc.prems wr False have c: "renderNode_children n Log_Write ?dg ?deps
        (newPrefix_of prefix isLast) ?V (log @ [?line]) = Some r"
      by (simp add: renderNode_first_visit del: renderNode.simps)
    obtain e' dg' V' log' where r: "r = (e', dg', V', log')" by (cases r)
    from c have "visit_ok ?dg ?V (log @ [?line]) (length ?deps) r"
      using Suc.IH by (rule children_visit [rotated, THEN conjunct1])
    then have e': "e' = None" and sub: "?V \<subseteq> V'" and fin: "finite (V' - ?V)"
      and cc: "child_count dg' = child_count dg"
      and len: "length log' = length log + 1 + child_count dg nodeKey
          + (\<Sum>k \<in> V' - ?V. child_count dg k)"
      by (simp_all add: visit_ok_def r child_count_after_sort) (simp add: child_count_def)
    have "(\<Sum>k \<in> V' - V. child_count dg k)
        = child_count dg nodeKey + (\<Sum>k \<in> V' - ?V. child_count dg k)"
      using False sub fin by (rule sum_new_node)
    with len have len': "length log' = length log + 1 + (\<Sum>k \<in> V' - V. child_count dg k)"
      by simp
    have "V' - V \<subseteq> insert nodeKey (V' - ?V)" by blast
    then have "finite (V' - V)" using fin by (meson finite_insert finite_subset)
    with e' sub cc len' show ?thesis by (auto simp: visit_ok_def r)
  qed
qed


lemma child_count_cache_ok:
  assumes "cache_ok dg"
  shows "child_count dg k
           = length (filter (\<lambda>dep. Module_String (From dep) = k) (Dependencies dg))"
proof -
  have "map_of (tree (buildTree dg)) = adjacency_spec (Dependencies dg)"
    using map_of_GetTree [OF assms] by (simp add: GetTree_def Let_def)
  then show ?thesis
    by (simp add: child_count_def map_index_def adjacency_spec_def Let_def)
qed

lemma sum_filter_le:
  "finite A \<Longrightarrow> (\<Sum>k \<in> A. length (filter (\<lambda>d. f d = k) ds)) \<le> length ds"
proof (induction ds)
  case Nil
  then show ?case by simp
next
  case (Cons d ds)
  have "(\<Sum>k \<in> A. length (filter (\<lambda>x. f x = k) (d # ds)))
      = (\<Sum>k \<in> A. (if f d = k then 1 else 0) + length (filter (\<lambda>x. f x = k) ds))"
    by (rule sum.cong) simp_all
  also have "\<dots> = (\<Sum>k \<in> A. if f d = k then 1 else 0)
      + (\<Sum>k \<in> A. length (filter (\<lambda>x. f x = k) ds))"
    by (rule sum.distrib)
  also have "(\<Sum>k \<in> A. if f d = k then 1 else 0) = (if f d \<in> A then 1 else (0::nat))"
    using Cons.prems by (simp add: sum.delta')
  finally show ?case using Cons.IH [OF Cons.prems] by simp
qed

lemma lines_le_edges:
  assumes "cache_ok dg" and "finite V"
  shows "(\<Sum>k \<in> V. child_count dg k) \<le> length (Dependencies dg)"
  using sum_filter_le [OF assms(2), of "\<lambda>dep. Module_String (From dep)" "Dependencies dg"]
  by (simp add: child_count_cache_ok [OF assms(1)])


section \<open>Plaintext tree renderer: claims\<close>

text \<open>
  C4. For every graph, with or without cycles and shared dependencies, every sink and every
  state of the visited set, the traversal returns: the fuel
  \<open>Suc (length (tree (buildTree graph)))\<close>, one more than the number of keys of the
  adjacency map, is enough for \<open>Render\<close> and for every call of \<open>renderNode\<close>, and
  more fuel gives the same result. A call of \<open>renderNode\<close> at a node that is in the
  visited set writes the line of the node and returns what the write returned, with the
  graph and the visited set as they were: it does not enter the loop over the children.
  On a sink that logs every write, a call of \<open>renderNode\<close> that returns has no error,
  leaves its node and all nodes visited before in the visited set, and has written one line
  for the node and one line for every child of every node that it added to the visited set,
  no more and no less: the children of a node are written once, when the node enters the
  set, and a later encounter adds one line only. So \<open>Render\<close> writes one line for the
  root and one for every child of every node visited, which for a graph whose cache is in
  order is at most one line more than the graph has dependencies.
\<close>

theorem plaintext_traversal_terminates:
  "(\<exists>r. \<forall>extra. PlaintextRenderer_Render (Suc (length (tree (buildTree graph))) + extra)
           wr graph w = Some r)
   \<and> (\<exists>r. \<forall>extra. renderNode (Suc (length (tree (buildTree graph))) + extra)
           wr graph nodeKey prefix isLast visited w = Some r)
   \<and> renderNode (Suc fuel) wr graph nodeKey prefix isLast (insert nodeKey visited) w
       = Some (fst (wr w (prefix @ connector_of prefix isLast @ nodeKey @ NL)),
               graph, insert nodeKey visited,
               snd (wr w (prefix @ connector_of prefix isLast @ nodeKey @ NL)))
   \<and> (renderNode fuel' Log_Write graph nodeKey prefix isLast visited log
         = Some (err, graph', visited', log') \<longrightarrow>
       err = None \<and> visited \<subseteq> visited' \<and> nodeKey \<in> visited' \<and> finite (visited' - visited)
       \<and> child_count graph' = child_count graph
       \<and> length log' = length log + 1 + (\<Sum>k \<in> visited' - visited. child_count graph k))
   \<and> (PlaintextRenderer_Render fuel' Log_Write graph [] = Some (err, graph', visited', log') \<longrightarrow>
       finite visited'
       \<and> length log' = 1 + (\<Sum>k \<in> visited'. child_count graph k)
       \<and> (cache_ok graph \<longrightarrow> length log' \<le> 1 + length (Dependencies graph)))"
proof (intro conjI impI)
  show "\<exists>r. \<forall>extra. PlaintextRenderer_Render (Suc (length (tree (buildTree graph))) + extra)
           wr graph w = Some r"
    unfolding PlaintextRenderer_Render_def by (rule renderNode_returns)
  show "\<exists>r. \<forall>extra. renderNode (Suc (length (tree (buildTree graph))) + extra)
           wr graph nodeKey prefix isLast visited w = Some r"
    by (rule renderNode_returns)
  show "renderNode (Suc fuel) wr graph nodeKey prefix isLast (insert nodeKey visited) w
       = Some (fst (wr w (prefix @ connector_of prefix isLast @ nodeKey @ NL)),
               graph, insert nodeKey visited,
               snd (wr w (prefix @ connector_of prefix isLast @ nodeKey @ NL)))"
  proof (cases "wr w (prefix @ connector_of prefix isLast @ nodeKey @ NL)")
    case (Pair e w')
    then show ?thesis by (cases e) simp_all
  qed
next
  assume "renderNode fuel' Log_Write graph nodeKey prefix isLast visited log
      = Some (err, graph', visited', log')"
  then have v: "visit_ok graph visited log 1 (err, graph', visited', log') \<and> nodeKey \<in> visited'"
    using renderNode_visit by fastforce
  from v show "err = None" by (simp add: visit_ok_def)
  from v show "visited \<subseteq> visited'" by (simp add: visit_ok_def)
  from v show "nodeKey \<in> visited'" by simp
  from v show "finite (visited' - visited)" by (simp add: visit_ok_def)
  from v show "child_count graph' = child_count graph" by (simp add: visit_ok_def)
  from v show "length log' = length log + 1 + (\<Sum>k \<in> visited' - visited. child_count graph k)"
    by (simp add: visit_ok_def)
next
  assume "PlaintextRenderer_Render fuel' Log_Write graph [] = Some (err, graph', visited', log')"
  then have "visit_ok graph {} [] 1 (err, graph', visited', log')"
    unfolding PlaintextRenderer_Render_def using renderNode_visit by fastforce
  then have fin: "finite visited'"
    and len: "length log' = 1 + (\<Sum>k \<in> visited'. child_count graph k)"
    by (simp_all add: visit_ok_def)
  show "finite visited'" by (rule fin)
  show "length log' = 1 + (\<Sum>k \<in> visited'. child_count graph k)" by (rule len)
  assume "cache_ok graph"
  then have "(\<Sum>k \<in> visited'. child_count graph k) \<le> length (Dependencies graph)"
    using fin by (rule lines_le_edges)
  with len show "length log' \<le> 1 + length (Dependencies graph)" by simp
qed

text \<open>
  The graph \<open>diamond\<close>: \<open>s\<close> is reached under \<open>a\<close> and again under \<open>b\<close>. The
  render writes six lines, one for the root and one for each of the five dependencies; the
  second line of \<open>s\<close> has no line of \<open>t\<close> under it.
\<close>

theorem plaintext_traversal_terminates_witness:
  "PlaintextRenderer_Render 4 Log_Write diamond []
     = Some (None,
         diamond\<lparr>tree := [(''r'', [''a'', ''b'']), (''a'', [''s'']), (''b'', [''s'']),
                           (''s'', [''t''])]\<rparr>,
         {''r'', ''a'', ''b'', ''s'', ''t''},
         [''r'' @ NL,
          ''  '' @ branch_connector @ ''a'' @ NL,
          ''  '' @ vertical_bar @ corner_connector @ ''s'' @ NL,
          ''  '' @ vertical_bar @ ''    '' @ corner_connector @ ''t'' @ NL,
          ''  '' @ corner_connector @ ''b'' @ NL,
          ''      '' @ corner_connector @ ''s'' @ NL])
   \<and> cache_ok diamond
   \<and> length [''r'' @ NL,
          ''  '' @ branch_connector @ ''a'' @ NL,
          ''  '' @ vertical_bar @ corner_connector @ ''s'' @ NL,
          ''  '' @ vertical_bar @ ''    '' @ corner_connector @ ''t'' @ NL,
          ''  '' @ corner_connector @ ''b'' @ NL,
          ''      '' @ corner_connector @ ''s'' @ NL] \<le> 1 + length (Dependencies diamond)
   \<and> (\<Sum>k \<in> {''r'', ''a'', ''b'', ''s'', ''t''}. child_count diamond k) = 5"
proof -
  let ?g' = "diamond\<lparr>tree := [(''r'', [''a'', ''b'']), (''a'', [''s'']), (''b'', [''s'']),
                           (''s'', [''t''])]\<rparr>"
  let ?V = "{''r'', ''a'', ''b'', ''s'', ''t''}"
  let ?L = "[''r'' @ NL,
          ''  '' @ branch_connector @ ''a'' @ NL,
          ''  '' @ vertical_bar @ corner_connector @ ''s'' @ NL,
          ''  '' @ vertical_bar @ ''    '' @ corner_connector @ ''t'' @ NL,
          ''  '' @ corner_connector @ ''b'' @ NL,
          ''      '' @ corner_connector @ ''s'' @ NL]"
  have run: "PlaintextRenderer_Render 4 Log_Write diamond [] = Some (None, ?g', ?V, ?L)"
    by code_simp
  have ck: "cache_ok diamond"
    by (simp add: cache_ok_def diamond_def AddDependency_def)
  have "PlaintextRenderer_Render 4 Log_Write diamond [] = Some (None, ?g', ?V, ?L) \<longrightarrow>
       finite ?V
       \<and> length ?L = 1 + (\<Sum>k \<in> ?V. child_count diamond k)
       \<and> (cache_ok diamond \<longrightarrow> length ?L \<le> 1 + length (Dependencies diamond))"
    using plaintext_traversal_terminates [where graph = diamond and wr = Log_Write
        and w = "[]" and nodeKey = "''r''" and prefix = "[]" and isLast = True
        and visited = "{}" and fuel = 0 and fuel' = 4 and log = "[]" and err = None
        and graph' = ?g' and visited' = ?V and log' = ?L]
    by (elim conjE)
  from this run have c: "finite ?V
       \<and> length ?L = 1 + (\<Sum>k \<in> ?V. child_count diamond k)
       \<and> (cache_ok diamond \<longrightarrow> length ?L \<le> 1 + length (Dependencies diamond))"
    by (rule mp)
  then have "cache_ok diamond \<longrightarrow> length ?L \<le> 1 + length (Dependencies diamond)"
    by (elim conjE)
  from this ck have bound: "length ?L \<le> 1 + length (Dependencies diamond)"
    by (rule mp)
  from c have "length ?L = 1 + (\<Sum>k \<in> ?V. child_count diamond k)"
    by (elim conjE)
  then have "(\<Sum>k \<in> ?V. child_count diamond k) = 5"
    by simp
  with run ck bound show ?thesis
    by (intro conjI)
qed

text \<open>
  A graph with the cycle \<open>a \<rightarrow> b \<rightarrow> a\<close>: the second visit of \<open>a\<close> prints its line
  and ends the branch.
\<close>

lemma plaintext_cycle_example:
  "PlaintextRenderer_Render 3 Buffer_Write
     (AddDependency
        (AddDependency (NewDependencyGraph \<lparr>Path = ''a'', Version = ''''\<rparr>)
           \<lparr>Path = ''a'', Version = ''''\<rparr> \<lparr>Path = ''b'', Version = ''''\<rparr>)
        \<lparr>Path = ''b'', Version = ''''\<rparr> \<lparr>Path = ''a'', Version = ''''\<rparr>) []
   = Some (None,
       \<lparr>MainModule = \<lparr>Path = ''a'', Version = ''''\<rparr>,
        Dependencies =
          [\<lparr>From = \<lparr>Path = ''a'', Version = ''''\<rparr>, To = \<lparr>Path = ''b'', Version = ''''\<rparr>\<rparr>,
           \<lparr>From = \<lparr>Path = ''b'', Version = ''''\<rparr>, To = \<lparr>Path = ''a'', Version = ''''\<rparr>\<rparr>],
        tree = [(''a'', [''b'']), (''b'', [''a''])]\<rparr>,
       {''a'', ''b''},
       ''a'' @ NL @ ''  '' @ corner_connector @ ''b'' @ NL
         @ ''      '' @ corner_connector @ ''a'' @ NL)"
  by code_simp


section \<open>Renderers: lemmas\<close>

lemma ReplaceAll_single:
  "ReplaceAll s [a] new = concat (map (\<lambda>c. if c = a then new else [c]) s)"
  by (induction s) simp_all

lemma ReplaceAll_char: "ReplaceAll s [a] [b] = map (\<lambda>c. if c = a then b else c) s"
  by (induction s) simp_all

lemma sanitizeNodeID_map:
  "sanitizeNodeID s =
     map (\<lambda>c. if c = CHR ''/'' \<or> c = CHR ''.'' \<or> c = CHR ''@'' \<or> c = CHR ''-''
               then CHR ''_'' else c) s"
  by (simp add: sanitizeNodeID_def ReplaceAll_char)

lemma HTML_label_escape:
  "ReplaceAll (ReplaceAll s DQ (BS @ DQ)) BS (BS @ BS) =
     concat (map (\<lambda>c. if c = CHR 0x22 then BS @ BS @ DQ
                       else if c = CHR 0x5C then BS @ BS else [c]) s)"
  by (induction s) (simp_all add: DQ_def BS_def ReplaceAll_single)

lemma write_each_Buffer: "write_each Buffer_Write buf ls = (None, buf @ concat ls)"
  by (induction ls arbitrary: buf) (simp_all add: Buffer_Write_def)

lemma position_of_member:
  "k \<in> set xs \<Longrightarrow> position_of xs k < length xs \<and> xs ! position_of xs k = k"
  by (induction xs) (auto simp: position_of_def)

lemma moduleToIndex_lookup:
  "distinct (map Module_String ms) \<Longrightarrow>
     map_of (moduleToIndex_loop (enumerate n ms) al) k =
       (if k \<in> Module_String ` set ms
        then Some (n + position_of (map Module_String ms) k) else map_of al k)"
proof (induction ms arbitrary: n al)
  case Nil
  then show ?case by simp
next
  case (Cons m ms)
  then have d: "distinct (map Module_String ms)" and m: "Module_String m \<notin> Module_String ` set ms"
    by simp_all
  show ?case
    using m by (auto simp: Cons.IH [OF d] update_conv' position_of_def)
qed

lemma moduleToIndex_position:
  assumes "k \<in> Module_String ` set (all_modules_seq dg)"
  shows "map_index_int (moduleToIndex_loop (enumerate 0 (GetAllModules sched dg)) []) k
           = position_of (map Module_String (GetAllModules sched dg)) k"
  using assms distinct_GetAllModules [of sched dg]
  by (simp add: map_index_int_def moduleToIndex_lookup keys_GetAllModules)

lemma endpoints_in_modules:
  assumes "dep \<in> set (Dependencies dg)"
  shows "Module_String (From dep) \<in> Module_String ` set (all_modules_seq dg)"
    and "Module_String (To dep) \<in> Module_String ` set (all_modules_seq dg)"
  using assms by (auto simp: all_modules_seq_members)

lemma generateLinks_positions:
  "generateLinks sched' dg =
     ''['' @ Join (map (\<lambda>dep. HTML_link_of
                 (position_of (map Module_String (GetAllModules sched dg)) (Module_String (From dep)))
                 (position_of (map Module_String (GetAllModules sched dg)) (Module_String (To dep))))
               (Dependencies dg)) ('','' @ NL @ ''        '') @ '']''"
proof -
  have "map (HTML_link (moduleToIndex_loop (enumerate 0 (GetAllModules sched dg)) []))
          (Dependencies dg)
      = map (\<lambda>dep. HTML_link_of
                 (position_of (map Module_String (GetAllModules sched dg)) (Module_String (From dep)))
                 (position_of (map Module_String (GetAllModules sched dg)) (Module_String (To dep))))
          (Dependencies dg)"
    by (rule map_cong) (simp_all add: HTML_link_def moduleToIndex_position endpoints_in_modules)
  then show ?thesis
    unfolding generateLinks_def Let_def GetAllModules_schedule [of sched' dg sched]
    by (rule arg_cong [where f = "\<lambda>ls. ''['' @ Join ls ('','' @ NL @ ''        '') @ '']''"])
qed

lemma length_GetAllModules:
  "length (GetAllModules sched dg) = card (Module_String ` set (all_modules_seq dg))"
proof -
  have "card (set (map Module_String (GetAllModules sched dg)))
          = length (map Module_String (GetAllModules sched dg))"
    using distinct_GetAllModules by (rule distinct_card)
  then show ?thesis by (simp add: keys_GetAllModules)
qed

lemma root_once:
  "length (filter (\<lambda>m. Module_String (MainModule dg) = Module_String m)
     (GetAllModules sched dg)) = 1"
proof -
  have "Module_String (MainModule dg) \<in> Module_String ` set (GetAllModules sched dg)"
    by (simp add: keys_GetAllModules all_modules_seq_def)
  then obtain x where x: "x \<in> set (GetAllModules sched dg)"
      "Module_String (MainModule dg) = Module_String x"
    by blast
  have "filter (\<lambda>y. Module_String x = Module_String y) (GetAllModules sched dg) = [x]"
    using distinct_GetAllModules x(1) by (rule filter_key_distinct)
  then show ?thesis by (simp add: x(2))
qed

lemma Graphviz_Buffer_output:
  "GraphvizRenderer_Render sched Buffer_Write dg buf =
     (None, buf @ ''digraph dependencies {'' @ NL @ ''    rankdir=LR;'' @ NL
        @ ''    node [shape=box, style=rounded];'' @ NL
        @ concat (map (Graphviz_node_line dg) (GetAllModules sched dg))
        @ concat (map Graphviz_edge_line (Dependencies dg))
        @ ''}'' @ NL)"
  by (simp add: GraphvizRenderer_Render_def write_each_Buffer Buffer_Write_def)

lemma Graphviz_schedule:
  "GraphvizRenderer_Render sched' wr dg w = GraphvizRenderer_Render sched wr dg w"
  unfolding GraphvizRenderer_Render_def GetAllModules_schedule [of sched' dg sched]
  by (rule refl)

lemma HTML_schedule:
  "HTMLRenderer_Render template sched1' sched2' wr dg w
     = HTMLRenderer_Render template sched1 sched2 wr dg w"
  by (simp add: HTMLRenderer_Render_def generateNodes_def generateLinks_def
        GetAllModules_schedule [of sched1' dg sched1] GetAllModules_schedule [of sched2' dg sched1]
        GetAllModules_schedule [of sched2 dg sched1])

lemma Mermaid_nodeIDs_schedule:
  "nodeIDs_loop (GetAllModules sched' dg) [] 1 = nodeIDs_loop (GetAllModules sched dg) [] 1"
  by (simp add: GetAllModules_schedule [of sched' dg sched])


lemma Itoa_digit: "n < 10 \<Longrightarrow> Itoa n = [char_of (48 + n)]"
  by (subst Itoa.simps) simp

lemma Itoa_more: "\<not> n < 10 \<Longrightarrow> Itoa n = Itoa (n div 10) @ [char_of (48 + n mod 10)]"
  by (subst Itoa.simps) simp

lemma of_char_digit: "d < 10 \<Longrightarrow> of_char (char_of (48 + d :: nat)) = (48 + d :: nat)"
  by simp

lemma decimal_value_Itoa: "decimal_value (Itoa n) = n"
proof (induction n rule: Itoa.induct)
  case (1 n)
  show ?case
  proof (cases "n < 10")
    case True
    then show ?thesis by (simp add: Itoa_digit decimal_value_def)
  next
    case False
    have d: "n mod 10 < 10" by simp
    from False 1 have "decimal_value (Itoa (n div 10)) = n div 10" by simp
    then have "decimal_value (Itoa n) = 10 * (n div 10) + n mod 10"
      using False by (simp add: Itoa_more decimal_value_def of_char_digit [OF d] del: of_char_of)
    then show ?thesis by simp
  qed
qed

lemma digit_char: "d < 10 \<Longrightarrow> CHR ''0'' \<le> char_of (48 + d :: nat) \<and> char_of (48 + d :: nat) \<le> CHR ''9''"
  by (simp add: less_eq_char_def)

lemma digits_Itoa: "list_all (\<lambda>c. CHR ''0'' \<le> c \<and> c \<le> CHR ''9'') (Itoa n)"
proof (induction n rule: Itoa.induct)
  case (1 n)
  show ?case
  proof (cases "n < 10")
    case True
    then show ?thesis by (simp add: Itoa_digit digit_char del: of_nat_add)
  next
    case False
    have d: "n mod 10 < 10" by simp
    from False 1 have "list_all (\<lambda>c. CHR ''0'' \<le> c \<and> c \<le> CHR ''9'') (Itoa (n div 10))" by simp
    then show ?thesis
      using False digit_char [OF d] by (simp add: Itoa_more)
  qed
qed

lemma Itoa_not_Nil: "Itoa n \<noteq> []"
  by (cases "n < 10") (simp_all add: Itoa_digit Itoa_more)

lemma Join_case:
  "Join xs sep = (case xs of [] \<Rightarrow> [] | e # es \<Rightarrow> e @ concat (map (\<lambda>x. sep @ x) es))"
  by (induction xs sep rule: Join.induct) simp_all

lemma Itoa_1_2: "Itoa 1 = ''1''" "Itoa (Suc 0) = ''1''" "Itoa 2 = ''2''"
  by code_simp+

lemma HTML_node_bytes:
  "HTML_node graph =
     (\<lambda>(i, m). ''{'' @ [CHR 0x22] @ ''id'' @ [CHR 0x22] @ '': '' @ Itoa i @ '', ''
        @ [CHR 0x22] @ ''name'' @ [CHR 0x22] @ '': '' @ [CHR 0x22]
        @ concat (map (\<lambda>c. if c = CHR 0x22 then [CHR 0x5C, CHR 0x5C, CHR 0x22]
                            else if c = CHR 0x5C then [CHR 0x5C, CHR 0x5C] else [c])
            (Module_String m))
        @ [CHR 0x22] @ '', '' @ [CHR 0x22] @ ''group'' @ [CHR 0x22] @ '': ''
        @ (if Module_String m = Module_String (MainModule graph) then ''2'' else ''1'')
        @ ''}'')"
proof (rule ext)
  fix e :: "nat \<times> Module"
  obtain i m where e: "e = (i, m)" by (cases e)
  have "concat (map (\<lambda>c. if c = CHR 0x22 then BS @ BS @ DQ
                       else if c = CHR 0x5C then BS @ BS else [c]) (Module_String m))
      = concat (map (\<lambda>c. if c = CHR 0x22 then [CHR 0x5C, CHR 0x5C, CHR 0x22]
                          else if c = CHR 0x5C then [CHR 0x5C, CHR 0x5C] else [c])
          (Module_String m))"
    unfolding DQ_def BS_def append_Cons append_Nil by (rule refl)
  then have esc: "ReplaceAll (ReplaceAll (Module_String m) DQ (BS @ DQ)) BS (BS @ BS)
      = concat (map (\<lambda>c. if c = CHR 0x22 then [CHR 0x5C, CHR 0x5C, CHR 0x22]
                          else if c = CHR 0x5C then [CHR 0x5C, CHR 0x5C] else [c])
          (Module_String m))"
    by (simp only: HTML_label_escape)
  note esc' = esc [unfolded DQ_def BS_def]
  show "HTML_node graph e = (case e of (i, m) \<Rightarrow>
        ''{'' @ [CHR 0x22] @ ''id'' @ [CHR 0x22] @ '': '' @ Itoa i @ '', ''
        @ [CHR 0x22] @ ''name'' @ [CHR 0x22] @ '': '' @ [CHR 0x22]
        @ concat (map (\<lambda>c. if c = CHR 0x22 then [CHR 0x5C, CHR 0x5C, CHR 0x22]
                            else if c = CHR 0x5C then [CHR 0x5C, CHR 0x5C] else [c])
            (Module_String m))
        @ [CHR 0x22] @ '', '' @ [CHR 0x22] @ ''group'' @ [CHR 0x22] @ '': ''
        @ (if Module_String m = Module_String (MainModule graph) then ''2'' else ''1'')
        @ ''}'')"
    unfolding e HTML_node_def Let_def prod.case DQ_def BS_def esc'
    by (simp add: Itoa_1_2)
qed


lemma enumerate_0_zip: "enumerate 0 xs = zip [0..<length xs] xs"
  by (simp add: enumerate_eq_zip)


section \<open>Renderers: claims\<close>

text \<open>
  C9. \<open>sanitizeNodeID\<close> replaces every \<open>/\<close>, \<open>.\<close>, \<open>@\<close> and \<open>-\<close> of a
  string by \<open>_\<close> and keeps every other byte, so \<open>github.com/example/module@v1.2.3\<close>
  becomes \<open>github_com_example_module_v1_2_3\<close>. Into a buffer, the DOT renderer writes its
  three header lines, then one declaration for every module of \<open>GetAllModules\<close> in its
  order, which is sorted by canonical string, then the edges and the closing brace. The
  declaration of a module carries the highlighting attributes when its canonical string is
  that of the root and not otherwise, and exactly one module of the sequence has the
  canonical string of the root.
\<close>

theorem Graphviz_declarations:
  "sanitizeNodeID s
     = map (\<lambda>c. if c = CHR ''/'' \<or> c = CHR ''.'' \<or> c = CHR ''@'' \<or> c = CHR ''-''
                 then CHR ''_'' else c) s
   \<and> sanitizeNodeID ''github.com/example/module@v1.2.3'' = ''github_com_example_module_v1_2_3''
   \<and> GraphvizRenderer_Render sched Buffer_Write graph buf
     = (None, buf @ ''digraph dependencies {'' @ NL @ ''    rankdir=LR;'' @ NL
          @ ''    node [shape=box, style=rounded];'' @ NL
          @ concat (map (Graphviz_node_line graph) (GetAllModules sched graph))
          @ concat (map Graphviz_edge_line (Dependencies graph))
          @ ''}'' @ NL)
   \<and> sorted (map Module_String (GetAllModules sched graph))
   \<and> Graphviz_node_line graph m
     = ''    '' @ DQ @ sanitizeNodeID (Module_String m) @ DQ @ '' [label='' @ DQ
         @ ReplaceAll (Module_String m) DQ (BS @ DQ) @ DQ
         @ (if Module_String m = Module_String (MainModule graph)
            then '', fillcolor=lightblue, style='' @ DQ @ ''rounded,filled'' @ DQ else [])
         @ ''];'' @ NL
   \<and> length (filter (\<lambda>m. Module_String (MainModule graph) = Module_String m)
        (GetAllModules sched graph)) = 1"
proof (intro conjI)
  show "sanitizeNodeID s
     = map (\<lambda>c. if c = CHR ''/'' \<or> c = CHR ''.'' \<or> c = CHR ''@'' \<or> c = CHR ''-''
                 then CHR ''_'' else c) s"
    by (rule sanitizeNodeID_map)
  show "sanitizeNodeID ''github.com/example/module@v1.2.3'' = ''github_com_example_module_v1_2_3''"
    by (simp add: sanitizeNodeID_map)
  show "GraphvizRenderer_Render sched Buffer_Write graph buf
     = (None, buf @ ''digraph dependencies {'' @ NL @ ''    rankdir=LR;'' @ NL
          @ ''    node [shape=box, style=rounded];'' @ NL
          @ concat (map (Graphviz_node_line graph) (GetAllModules sched graph))
          @ concat (map Graphviz_edge_line (Dependencies graph))
          @ ''}'' @ NL)"
    by (rule Graphviz_Buffer_output)
  show "sorted (map Module_String (GetAllModules sched graph))"
    by (rule sorted_GetAllModules)
  show "Graphviz_node_line graph m
     = ''    '' @ DQ @ sanitizeNodeID (Module_String m) @ DQ @ '' [label='' @ DQ
         @ ReplaceAll (Module_String m) DQ (BS @ DQ) @ DQ
         @ (if Module_String m = Module_String (MainModule graph)
            then '', fillcolor=lightblue, style='' @ DQ @ ''rounded,filled'' @ DQ else [])
         @ ''];'' @ NL"
    by (simp add: Graphviz_node_line_def Let_def)
  show "length (filter (\<lambda>m. Module_String (MainModule graph) = Module_String m)
        (GetAllModules sched graph)) = 1"
    by (rule root_once)
qed

text \<open>
  C8. \<open>generateLinks\<close> emits one link for every dependency, in the order of the dependency
  sequence, separated by a comma, a line feed and eight spaces, between square brackets. The
  link is the text \<open>{"source": i, "target": j}\<close>, where \<open>i\<close> and \<open>j\<close> are the
  positions, counted from 0, of the canonical strings of \<open>from\<close> and \<open>to\<close> in the sequence
  of \<open>GetAllModules\<close>, written in decimal: the digits that \<open>Itoa\<close> gives are decimal
  digits, at least one, and denote the number. \<open>generateNodes\<close> numbers the modules of that
  sequence from 0 in its \<open>id\<close> fields, whatever the orders of ranging over the map in the
  two calls of \<open>GetAllModules\<close> are, and emits as many nodes as the graph has canonical
  strings. Every position is less than the number of nodes, and the module at that position
  has the canonical string of the end of the dependency.
\<close>

theorem node_link_indices:
  "generateLinks sched' graph
     = ''['' @ (case map (\<lambda>dep. ''{'' @ [CHR 0x22] @ ''source'' @ [CHR 0x22] @ '': ''
                   @ Itoa (position_of (map Module_String (GetAllModules sched graph))
                            (Module_String (From dep)))
                   @ '', '' @ [CHR 0x22] @ ''target'' @ [CHR 0x22] @ '': ''
                   @ Itoa (position_of (map Module_String (GetAllModules sched graph))
                            (Module_String (To dep)))
                   @ ''}'')
                 (Dependencies graph) of
                [] \<Rightarrow> []
              | e # es \<Rightarrow> e @ concat (map (\<lambda>x. ('','' @ [CHR 0x0A] @ ''        '') @ x) es))
         @ '']''
   \<and> generateNodes sched graph
     = ''['' @ (case map (\<lambda>(i, m). ''{'' @ [CHR 0x22] @ ''id'' @ [CHR 0x22] @ '': '' @ Itoa i
                   @ '', '' @ [CHR 0x22] @ ''name'' @ [CHR 0x22] @ '': '' @ [CHR 0x22]
                   @ concat (map (\<lambda>c. if c = CHR 0x22 then [CHR 0x5C, CHR 0x5C, CHR 0x22]
                                       else if c = CHR 0x5C then [CHR 0x5C, CHR 0x5C] else [c])
                       (Module_String m))
                   @ [CHR 0x22] @ '', '' @ [CHR 0x22] @ ''group'' @ [CHR 0x22] @ '': ''
                   @ (if Module_String m = Module_String (MainModule graph) then ''2'' else ''1'')
                   @ ''}'')
                 (zip [0..<length (GetAllModules sched graph)] (GetAllModules sched graph)) of
                [] \<Rightarrow> []
              | e # es \<Rightarrow> e @ concat (map (\<lambda>x. ('','' @ [CHR 0x0A] @ ''        '') @ x) es))
         @ '']''
   \<and> decimal_value (Itoa n) = n
   \<and> list_all (\<lambda>c. CHR ''0'' \<le> c \<and> c \<le> CHR ''9'') (Itoa n)
   \<and> Itoa n \<noteq> []
   \<and> length (GetAllModules sched graph) = card (Module_String ` set (all_modules_seq graph))
   \<and> (\<forall>dep \<in> set (Dependencies graph). \<forall>k \<in> {Module_String (From dep), Module_String (To dep)}.
        position_of (map Module_String (GetAllModules sched graph)) k
          < length (GetAllModules sched graph)
        \<and> Module_String (GetAllModules sched graph
             ! position_of (map Module_String (GetAllModules sched graph)) k) = k)"
proof (intro conjI ballI)
  show "generateLinks sched' graph
     = ''['' @ (case map (\<lambda>dep. ''{'' @ [CHR 0x22] @ ''source'' @ [CHR 0x22] @ '': ''
                   @ Itoa (position_of (map Module_String (GetAllModules sched graph))
                            (Module_String (From dep)))
                   @ '', '' @ [CHR 0x22] @ ''target'' @ [CHR 0x22] @ '': ''
                   @ Itoa (position_of (map Module_String (GetAllModules sched graph))
                            (Module_String (To dep)))
                   @ ''}'')
                 (Dependencies graph) of
                [] \<Rightarrow> []
              | e # es \<Rightarrow> e @ concat (map (\<lambda>x. ('','' @ [CHR 0x0A] @ ''        '') @ x) es))
         @ '']''"
    unfolding generateLinks_positions [of sched' graph sched] Join_case HTML_link_of_def
      DQ_def NL_def
    by (rule refl)
  show "generateNodes sched graph
     = ''['' @ (case map (\<lambda>(i, m). ''{'' @ [CHR 0x22] @ ''id'' @ [CHR 0x22] @ '': '' @ Itoa i
                   @ '', '' @ [CHR 0x22] @ ''name'' @ [CHR 0x22] @ '': '' @ [CHR 0x22]
                   @ concat (map (\<lambda>c. if c = CHR 0x22 then [CHR 0x5C, CHR 0x5C, CHR 0x22]
                                       else if c = CHR 0x5C then [CHR 0x5C, CHR 0x5C] else [c])
                       (Module_String m))
                   @ [CHR 0x22] @ '', '' @ [CHR 0x22] @ ''group'' @ [CHR 0x22] @ '': ''
                   @ (if Module_String m = Module_String (MainModule graph) then ''2'' else ''1'')
                   @ ''}'')
                 (zip [0..<length (GetAllModules sched graph)] (GetAllModules sched graph)) of
                [] \<Rightarrow> []
              | e # es \<Rightarrow> e @ concat (map (\<lambda>x. ('','' @ [CHR 0x0A] @ ''        '') @ x) es))
         @ '']''"
    unfolding generateNodes_def Let_def Join_case enumerate_0_zip HTML_node_bytes NL_def
    by (rule refl)
  show "decimal_value (Itoa n) = n"
    by (rule decimal_value_Itoa)
  show "list_all (\<lambda>c. CHR ''0'' \<le> c \<and> c \<le> CHR ''9'') (Itoa n)"
    by (rule digits_Itoa)
  show "Itoa n \<noteq> []"
    by (rule Itoa_not_Nil)
  show "length (GetAllModules sched graph) = card (Module_String ` set (all_modules_seq graph))"
    by (rule length_GetAllModules)
next
  fix dep k
  assume dep: "dep \<in> set (Dependencies graph)"
    and k: "k \<in> {Module_String (From dep), Module_String (To dep)}"
  let ?names = "map Module_String (GetAllModules sched graph)"
  from dep k have "k \<in> Module_String ` set (all_modules_seq graph)"
    using endpoints_in_modules [OF dep] by auto
  then have "k \<in> set ?names"
    by (simp add: keys_GetAllModules)
  then have p: "position_of ?names k < length ?names \<and> ?names ! position_of ?names k = k"
    by (rule position_of_member)
  then show "position_of ?names k < length (GetAllModules sched graph)"
    by simp
  from p have "?names ! position_of ?names k
      = Module_String (GetAllModules sched graph ! position_of ?names k)"
    by (intro nth_map) simp
  with p show "Module_String (GetAllModules sched graph ! position_of ?names k) = k"
    by simp
qed

text \<open>
  The graph of two modules with the dependency \<open>b \<rightarrow> a\<close> and the root \<open>b\<close>: two
  nodes, \<open>a\<close> at 0 and \<open>b\<close> at 1, and the link from 1 to 0.
\<close>

theorem node_link_indices_witness:
  "\<lparr>From = \<lparr>Path = ''b'', Version = ''''\<rparr>, To = \<lparr>Path = ''a'', Version = ''''\<rparr>\<rparr>
     \<in> set (Dependencies (AddDependency (NewDependencyGraph \<lparr>Path = ''b'', Version = ''''\<rparr>)
          \<lparr>Path = ''b'', Version = ''''\<rparr> \<lparr>Path = ''a'', Version = ''''\<rparr>))
   \<and> position_of (map Module_String (GetAllModules []
          (AddDependency (NewDependencyGraph \<lparr>Path = ''b'', Version = ''''\<rparr>)
             \<lparr>Path = ''b'', Version = ''''\<rparr> \<lparr>Path = ''a'', Version = ''''\<rparr>))) ''b'' = 1
   \<and> Module_String (GetAllModules []
          (AddDependency (NewDependencyGraph \<lparr>Path = ''b'', Version = ''''\<rparr>)
             \<lparr>Path = ''b'', Version = ''''\<rparr> \<lparr>Path = ''a'', Version = ''''\<rparr>) ! 1) = ''b''
   \<and> generateLinks [] (AddDependency (NewDependencyGraph \<lparr>Path = ''b'', Version = ''''\<rparr>)
          \<lparr>Path = ''b'', Version = ''''\<rparr> \<lparr>Path = ''a'', Version = ''''\<rparr>)
       = ''[{'' @ [CHR 0x22] @ ''source'' @ [CHR 0x22] @ '': 1, ''
           @ [CHR 0x22] @ ''target'' @ [CHR 0x22] @ '': 0}]''
   \<and> generateNodes [] (AddDependency (NewDependencyGraph \<lparr>Path = ''b'', Version = ''''\<rparr>)
          \<lparr>Path = ''b'', Version = ''''\<rparr> \<lparr>Path = ''a'', Version = ''''\<rparr>)
       = ''[{'' @ [CHR 0x22] @ ''id'' @ [CHR 0x22] @ '': 0, '' @ [CHR 0x22] @ ''name''
           @ [CHR 0x22] @ '': '' @ [CHR 0x22] @ ''a'' @ [CHR 0x22]
           @ '', '' @ [CHR 0x22] @ ''group'' @ [CHR 0x22] @ '': 1},'' @ [CHR 0x0A]
           @ ''        {'' @ [CHR 0x22] @ ''id'' @ [CHR 0x22] @ '': 1, '' @ [CHR 0x22] @ ''name''
           @ [CHR 0x22] @ '': '' @ [CHR 0x22] @ ''b'' @ [CHR 0x22]
           @ '', '' @ [CHR 0x22] @ ''group'' @ [CHR 0x22] @ '': 2}]''"
proof -
  let ?a = "\<lparr>Path = ''a'', Version = ''''\<rparr>" and ?b = "\<lparr>Path = ''b'', Version = ''''\<rparr>"
  let ?g = "AddDependency (NewDependencyGraph ?b) ?b ?a"
  let ?names = "map Module_String (GetAllModules [] ?g)"
  have dep: "\<lparr>From = ?b, To = ?a\<rparr> \<in> set (Dependencies ?g)"
    by (simp add: AddDependency_def NewDependencyGraph_def)
  have pos: "position_of ?names ''b'' = 1"
    by code_simp
  have links: "generateLinks [] ?g
       = ''[{'' @ [CHR 0x22] @ ''source'' @ [CHR 0x22] @ '': 1, ''
           @ [CHR 0x22] @ ''target'' @ [CHR 0x22] @ '': 0}]''"
    by code_simp
  have nodes: "generateNodes [] ?g
       = ''[{'' @ [CHR 0x22] @ ''id'' @ [CHR 0x22] @ '': 0, '' @ [CHR 0x22] @ ''name''
           @ [CHR 0x22] @ '': '' @ [CHR 0x22] @ ''a'' @ [CHR 0x22]
           @ '', '' @ [CHR 0x22] @ ''group'' @ [CHR 0x22] @ '': 1},'' @ [CHR 0x0A]
           @ ''        {'' @ [CHR 0x22] @ ''id'' @ [CHR 0x22] @ '': 1, '' @ [CHR 0x22] @ ''name''
           @ [CHR 0x22] @ '': '' @ [CHR 0x22] @ ''b'' @ [CHR 0x22]
           @ '', '' @ [CHR 0x22] @ ''group'' @ [CHR 0x22] @ '': 2}]''"
    by code_simp
  have "\<forall>dep \<in> set (Dependencies ?g). \<forall>k \<in> {Module_String (From dep), Module_String (To dep)}.
        position_of ?names k < length (GetAllModules [] ?g)
        \<and> Module_String (GetAllModules [] ?g ! position_of ?names k) = k"
    using node_link_indices [of "[]" ?g "[]" 0] by (elim conjE)
  from this dep have "\<forall>k \<in> {Module_String (From \<lparr>From = ?b, To = ?a\<rparr>),
          Module_String (To \<lparr>From = ?b, To = ?a\<rparr>)}.
        position_of ?names k < length (GetAllModules [] ?g)
        \<and> Module_String (GetAllModules [] ?g ! position_of ?names k) = k"
    by (rule bspec)
  then have "Module_String (GetAllModules [] ?g ! position_of ?names ''b'') = ''b''"
    by (simp add: Module_String_def)
  then have "Module_String (GetAllModules [] ?g ! 1) = ''b''"
    by (simp only: pos)
  with dep pos links nodes show ?thesis
    by (intro conjI)
qed


section \<open>Renderers: where the code departs from the specification\<close>

text \<open>
  C2. The root \<open>a\<close> with the dependency \<open>a \<rightarrow> b\<close>. The Mermaid renderer numbers the
  modules in sorted order, \<open>a\<close> as \<open>N1\<close> and \<open>b\<close> as \<open>N2\<close>, and then ranges over
  the map \<open>nodeIDs\<close> to write the declarations. When the runtime visits the entry of
  \<open>a\<close> first, the declaration of \<open>N1\<close> comes first; when it visits the entry of \<open>b\<close>
  first, the declaration of \<open>N2\<close> comes first. The two runs write different bytes.
\<close>

theorem Mermaid_declarations_follow_map_order:
  "MermaidRenderer_Render [] [0] Buffer_Write
     (AddDependency (NewDependencyGraph \<lparr>Path = ''a'', Version = ''''\<rparr>)
        \<lparr>Path = ''a'', Version = ''''\<rparr> \<lparr>Path = ''b'', Version = ''''\<rparr>) []
     = (None, ''graph TD'' @ NL
          @ ''    N1['' @ DQ @ ''a'' @ DQ @ '']'' @ NL
          @ ''    N2['' @ DQ @ ''b'' @ DQ @ '']'' @ NL
          @ ''    N1 --> N2'' @ NL)
   \<and> MermaidRenderer_Render [] [1] Buffer_Write
     (AddDependency (NewDependencyGraph \<lparr>Path = ''a'', Version = ''''\<rparr>)
        \<lparr>Path = ''a'', Version = ''''\<rparr> \<lparr>Path = ''b'', Version = ''''\<rparr>) []
     = (None, ''graph TD'' @ NL
          @ ''    N2['' @ DQ @ ''b'' @ DQ @ '']'' @ NL
          @ ''    N1['' @ DQ @ ''a'' @ DQ @ '']'' @ NL
          @ ''    N1 --> N2'' @ NL)"
  by code_simp

text \<open>
  C3. \<open>generateNodes\<close> replaces the double quotes of the label first and the backslashes
  second, so the backslash that the first replacement puts before a quote is doubled by the
  second: in the name field every double quote becomes backslash, backslash, quote, and every
  backslash becomes two. The graph whose root has the path \<open>a"b\<close> gives the name
  \<open>a\\"b\<close>.
\<close>

theorem generateNodes_escapes_quote_twice:
  "ReplaceAll (ReplaceAll s DQ (BS @ DQ)) BS (BS @ BS)
     = concat (map (\<lambda>c. if c = CHR 0x22 then BS @ BS @ DQ
                         else if c = CHR 0x5C then BS @ BS else [c]) s)
   \<and> generateNodes [] (NewDependencyGraph \<lparr>Path = ''a'' @ DQ @ ''b'', Version = ''''\<rparr>)
     = ''[{'' @ DQ @ ''id'' @ DQ @ '': 0, '' @ DQ @ ''name'' @ DQ @ '': ''
         @ DQ @ ''a'' @ BS @ BS @ DQ @ ''b'' @ DQ
         @ '', '' @ DQ @ ''group'' @ DQ @ '': 2}]''"
proof
  show "ReplaceAll (ReplaceAll s DQ (BS @ DQ)) BS (BS @ BS)
     = concat (map (\<lambda>c. if c = CHR 0x22 then BS @ BS @ DQ
                         else if c = CHR 0x5C then BS @ BS else [c]) s)"
    by (rule HTML_label_escape)
  show "generateNodes [] (NewDependencyGraph \<lparr>Path = ''a'' @ DQ @ ''b'', Version = ''''\<rparr>)
     = ''[{'' @ DQ @ ''id'' @ DQ @ '': 0, '' @ DQ @ ''name'' @ DQ @ '': ''
         @ DQ @ ''a'' @ BS @ BS @ DQ @ ''b'' @ DQ
         @ '', '' @ DQ @ ''group'' @ DQ @ '': 2}]''"
    by code_simp
qed

text \<open>
  C6. The root \<open>r\<close> with the dependencies \<open>r \<rightarrow> b\<close> and \<open>r \<rightarrow> a\<close>, added in this
  order. Before a render \<open>GetTree\<close> maps \<open>r\<close> to \<open>b, a\<close>, the order of insertion.
  The plaintext renderer sorts the slice it read from the map, which is the slice of the
  map, so after the render \<open>GetTree\<close> maps \<open>r\<close> to \<open>a, b\<close>.
\<close>

theorem plaintext_Render_sorts_cache_in_place:
  "map_index (snd (GetTree
       (AddDependency
          (AddDependency (NewDependencyGraph \<lparr>Path = ''r'', Version = ''''\<rparr>)
             \<lparr>Path = ''r'', Version = ''''\<rparr> \<lparr>Path = ''b'', Version = ''''\<rparr>)
          \<lparr>Path = ''r'', Version = ''''\<rparr> \<lparr>Path = ''a'', Version = ''''\<rparr>))) ''r''
     = [''b'', ''a'']
   \<and> (case PlaintextRenderer_Render 2 Buffer_Write
       (AddDependency
          (AddDependency (NewDependencyGraph \<lparr>Path = ''r'', Version = ''''\<rparr>)
             \<lparr>Path = ''r'', Version = ''''\<rparr> \<lparr>Path = ''b'', Version = ''''\<rparr>)
          \<lparr>Path = ''r'', Version = ''''\<rparr> \<lparr>Path = ''a'', Version = ''''\<rparr>) [] of
        None \<Rightarrow> False
      | Some (err, graph', visited', out) \<Rightarrow>
          err = None
          \<and> map_index (snd (GetTree graph')) ''r'' = [''a'', ''b'']
          \<and> out = ''r'' @ NL @ ''  '' @ branch_connector @ ''a'' @ NL
                     @ ''  '' @ corner_connector @ ''b'' @ NL)"
  by code_simp


end
